theory Spec2Isabelle
  imports Main "HOL-Library.AList" "HOL-Library.Multiset"
begin

section \<open>Data model (the structs of the device monitor)\<close>

text \<open>
  Go strings are byte sequences, so they are modelled as \<open>string\<close> (a list of 8-bit
  characters). A pointer that may be nil is an \<open>option\<close>. \<open>time.Time\<close> is an abstract
  timestamp.
\<close>

type_synonym time = nat

record VirtualContext =
  vc_ID :: string
  vc_Name :: string
  vc_IsDefault :: bool

record LogicalDevice =
  ld_ID :: string
  ld_Name :: string
  ld_TopologyType :: string
  ld_VirtualContexts :: "VirtualContext list"

record AsNode =
  SyncLinkIP :: string
  SyncLinkPort :: int
  Priority :: int
  Role :: string
  SuspendMode :: string

record PhysicalDevice =
  pd_ID :: string
  pd_LogicalDevice :: LogicalDevice
  pd_Name :: string
  pd_Description :: string
  pd_Model :: string
  pd_SerialNumber :: string
  pd_ConnectionState :: string
  pd_Address :: string
  pd_AddressType :: string
  pd_LastConnectedAt :: string
  pd_CreatedAt :: string
  pd_UpdatedAt :: string
  pd_AsNode :: "AsNode option"
  pd_SoftwareVersion :: string
  pd_TopologyType :: string
  pd_HealthStatus :: string
  pd_ConfigurationStatus :: string
  pd_ProductVersion :: string
  pd_LogicalDeviceChange :: string

record APIResponse =
  resp_PhysicalDevices :: "PhysicalDevice list"
  resp_Total :: int

text \<open>
  \<open>ActiveNode\<close> is a pointer into the group's own \<open>PhysicalDevices\<close> slice
  (\<open>&group.PhysicalDevices[i]\<close>); it is modelled by the index \<open>i\<close> it points at.
\<close>

record LogicalDeviceGroup =
  LogicalDevice :: LogicalDevice
  PhysicalDevices :: "PhysicalDevice list"
  IsCluster :: bool
  ActiveNode :: "nat option"
  StandbyNodes :: "PhysicalDevice list"

record GroupedDevices =
  LogicalDeviceGroups :: "LogicalDeviceGroup list"
  TotalDevices :: int
  LastUpdated :: time

section \<open>Grouping engine: \<open>GroupDevicesByLogicalDevice\<close>\<close>

text \<open>
  \<open>groupMap\<close> is a Go map from logical-device id to a group. It is modelled as an
  association list with one entry per key; \<open>map_of\<close> is the lookup and
  \<open>AList.update\<close> the store.
\<close>

type_synonym groupMap = "(string \<times> LogicalDeviceGroup) list"

definition logicalID :: "PhysicalDevice \<Rightarrow> string" where
  "logicalID device = ld_ID (pd_LogicalDevice device)"

text \<open>The body of the first loop: one device is filed into its group.\<close>

definition insert_device :: "groupMap \<Rightarrow> PhysicalDevice \<Rightarrow> groupMap" where
  "insert_device gm device =
     (case map_of gm (logicalID device) of
        Some grp \<Rightarrow>
          AList.update (logicalID device)
            (grp\<lparr>PhysicalDevices := PhysicalDevices grp @ [device]\<rparr>) gm
      | None \<Rightarrow>
          AList.update (logicalID device)
            \<lparr>LogicalDevice = pd_LogicalDevice device, PhysicalDevices = [device],
             IsCluster = False, ActiveNode = None, StandbyNodes = []\<rparr> gm)"

definition build_groupMap :: "PhysicalDevice list \<Rightarrow> groupMap" where
  "build_groupMap devices = foldl insert_device [] devices"

definition is_active :: "PhysicalDevice \<Rightarrow> bool" where
  "is_active device =
     (case pd_AsNode device of None \<Rightarrow> False
      | Some n \<Rightarrow> Role n = ''ACTIVE_STANDBY_ROLE_ACTIVE'')"

definition is_standby :: "PhysicalDevice \<Rightarrow> bool" where
  "is_standby device =
     (case pd_AsNode device of None \<Rightarrow> False
      | Some n \<Rightarrow> Role n = ''ACTIVE_STANDBY_ROLE_STANDBY'')"

text \<open>The body of the inner loop \<open>for i := range group.PhysicalDevices\<close>.\<close>

definition scan_node :: "LogicalDeviceGroup \<Rightarrow> nat \<Rightarrow> LogicalDeviceGroup" where
  "scan_node grp i =
     (let device = PhysicalDevices grp ! i in
      if is_active device then grp\<lparr>ActiveNode := Some i\<rparr>
      else if is_standby device then grp\<lparr>StandbyNodes := StandbyNodes grp @ [device]\<rparr>
      else grp)"

definition analyze_group :: "LogicalDeviceGroup \<Rightarrow> LogicalDeviceGroup" where
  "analyze_group grp =
     (let g = grp\<lparr>IsCluster :=
                 (ld_TopologyType (LogicalDevice grp) = ''TOPOLOGY_TYPE_ACTIVE_STANDBY'' \<or>
                  ld_TopologyType (LogicalDevice grp) = ''TOPOLOGY_TYPE_CLUSTER'')\<rparr>
      in if IsCluster g then foldl scan_node g [0..<length (PhysicalDevices g)] else g)"

text \<open>
  Go leaves the order of \<open>for ... range\<close> over a map unspecified and randomises it.
  The order the runtime picks is modelled by a list of numbers: at each step the next
  number selects one of the entries not yet visited. Every list of numbers gives a
  permutation of the entries, and every permutation is given by some list.
\<close>

fun map_range_order :: "nat list \<Rightarrow> 'a list \<Rightarrow> 'a list" where
  "map_range_order ns [] = []"
| "map_range_order [] xs = xs"
| "map_range_order (n # ns) xs =
     (let k = n mod length xs
      in xs ! k # map_range_order ns (take k xs @ drop (Suc k) xs))"

text \<open>
  \<open>GroupDevicesByLogicalDevice\<close> reads two things from its environment: the iteration
  order of the map (\<open>order\<close>) and the clock (\<open>now\<close>, for \<open>time.Now()\<close>).
\<close>

definition GroupDevicesByLogicalDevice ::
  "nat list \<Rightarrow> time \<Rightarrow> APIResponse \<Rightarrow> GroupedDevices" where
  "GroupDevicesByLogicalDevice order now response =
     \<lparr>LogicalDeviceGroups =
        map (\<lambda>(k, grp). analyze_group grp)
          (map_range_order order (build_groupMap (resp_PhysicalDevices response))),
      TotalDevices = int (length (resp_PhysicalDevices response)),
      LastUpdated = now\<rparr>"


section \<open>Session client: \<open>Login\<close>, \<open>FetchDevices\<close>, \<open>FetchDevicesWithRetry\<close>\<close>

text \<open>
  Go's \<open>error\<close> values. \<open>APIError\<close> is the struct of the source (status code, message,
  endpoint); \<open>Wrap m e\<close> is \<open>fmt.Errorf(m + ": %w", e)\<close>; \<open>Msg m\<close> is \<open>fmt.Errorf(m)\<close>;
  \<open>Transport m\<close> is an error of the HTTP library; \<open>FailedAfter n e\<close> is
  \<open>fmt.Errorf("failed after %d attempts: %w", n, e)\<close>, where \<open>e\<close> may be nil.
  The type assertion \<open>err.(*APIError)\<close> succeeds on the constructor \<open>APIError\<close> only:
  a wrapped \<open>APIError\<close> is not an \<open>*APIError\<close>.
\<close>

datatype err =
    APIError int string string
  | Wrap string err
  | Msg string
  | Transport string
  | FailedAfter int "err option"

record Cookie =
  cookie_Name :: string
  cookie_Value :: string

text \<open>The JSON bodies the client sends, before marshalling.\<close>

datatype payload = LoginRequest string string | LimitData int

record Request =
  req_URL :: string
  req_Payload :: payload
  req_Cookie :: "Cookie option"

text \<open>
  An HTTP response as the client reads it: the status code, what \<open>io.ReadAll\<close> returns
  for the body (the bytes and the error, if any) and the cookies of \<open>resp.Cookies()\<close>.
\<close>

record Response =
  http_StatusCode :: int
  http_Body :: string
  http_ReadErr :: "string option"
  http_Cookies :: "Cookie list"

datatype http_result = DoError string | DoResponse Response

record APIClient =
  cfg_Username :: string
  cfg_Password :: string
  devicesEndpoint :: string
  loginEndpoint :: string
  authCookie :: "Cookie option"
  authenticated :: bool

text \<open>
  The trace records what the client does, in order: the calls of \<open>Login\<close> and
  \<open>FetchDevices\<close>, the requests handed to \<open>client.Do\<close>, and the sleeps (in
  nanoseconds, as \<open>time.Duration\<close>). It is ghost state: the code never reads it.
\<close>

datatype event =
    EvLogin string string
  | EvFetchDevices
  | EvDo Request
  | EvSleep int

record World =
  client :: APIClient
  trace :: "event list"

text \<open>
  The environment: the remote server answers each request as a function of all the
  requests sent so far (the last one is the request being answered), \<open>url_ok\<close> says
  whether \<open>http.NewRequest\<close> accepts a URL, and \<open>unmarshal\<close> is \<open>json.Unmarshal\<close>
  into an \<open>APIResponse\<close>.
\<close>

record env =
  server :: "Request list \<Rightarrow> http_result"
  url_ok :: "string \<Rightarrow> bool"
  unmarshal :: "string \<Rightarrow> string + APIResponse"

fun requests :: "event list \<Rightarrow> Request list" where
  "requests [] = []"
| "requests (EvDo r # es) = r # requests es"
| "requests (e # es) = requests es"

definition Do :: "env \<Rightarrow> Request \<Rightarrow> World \<Rightarrow> http_result \<times> World" where
  "Do e req w =
     (let w' = w\<lparr>trace := trace w @ [EvDo req]\<rparr>
      in (server e (requests (trace w')), w'))"

definition StatusOK :: int where "StatusOK = 200"
definition StatusUnauthorized :: int where "StatusUnauthorized = 401"

text \<open>
  \<open>json.Marshal\<close> cannot fail on the two request structs, so its error branches are
  left out; \<open>http.NewRequest\<close> fails where \<open>url_ok\<close> is false. The cookie jar of the
  HTTP client is part of the server's view: the server answers as a function of the
  requests, whatever they carry.
\<close>

text \<open>The loop over \<open>resp.Cookies()\<close> in \<open>Login\<close>, which stops at the first match.\<close>

fun scan_cookies :: "Cookie list \<Rightarrow> APIClient \<Rightarrow> APIClient" where
  "scan_cookies [] ac = ac"
| "scan_cookies (cookie # rest) ac =
     (if cookie_Name cookie = ''Authorization'' \<or> cookie_Name cookie = ''Autorization''
      then ac\<lparr>authCookie := Some cookie, authenticated := True\<rparr>
      else scan_cookies rest ac)"

definition Login :: "env \<Rightarrow> string \<Rightarrow> string \<Rightarrow> World \<Rightarrow> err option \<times> World" where
  "Login e login password w0 =
     (let w = w0\<lparr>trace := trace w0 @ [EvLogin login password]\<rparr>;
          ac = client w
      in if \<not> url_ok e (loginEndpoint ac)
         then (Some (Wrap ''failed to create login request'' (Msg ''invalid URL'')), w)
         else
           (case Do e \<lparr>req_URL = loginEndpoint ac, req_Payload = LoginRequest login password,
                       req_Cookie = None\<rparr> w of
              (DoError m, w1) \<Rightarrow>
                (Some (Wrap ''failed to execute login request'' (Transport m)), w1)
            | (DoResponse resp, w1) \<Rightarrow>
                if http_StatusCode resp \<noteq> StatusOK
                then (Some (APIError (http_StatusCode resp) (http_Body resp) (loginEndpoint ac)), w1)
                else
                  (let w2 = w1\<lparr>client := scan_cookies (http_Cookies resp) (client w1)\<rparr>
                   in if \<not> authenticated (client w2)
                      then (Some (Msg ''no Authorization cookie received from login response''), w2)
                      else (None, w2))))"

definition makeDevicesRequest :: "env \<Rightarrow> payload \<Rightarrow> World \<Rightarrow> (err + APIResponse) \<times> World" where
  "makeDevicesRequest e jsonData w =
     (let ac = client w
      in if \<not> url_ok e (devicesEndpoint ac)
         then (Inl (Wrap ''failed to create request'' (Msg ''invalid URL'')), w)
         else
           (case Do e \<lparr>req_URL = devicesEndpoint ac, req_Payload = jsonData,
                       req_Cookie = authCookie ac\<rparr> w of
              (DoError m, w1) \<Rightarrow> (Inl (Wrap ''failed to execute request'' (Transport m)), w1)
            | (DoResponse resp, w1) \<Rightarrow>
                if http_StatusCode resp = StatusUnauthorized
                then (Inl (APIError (http_StatusCode resp) ''authentication expired''
                             (devicesEndpoint ac)), w1)
                else if http_StatusCode resp \<noteq> StatusOK
                then (Inl (APIError (http_StatusCode resp) (http_Body resp)
                             (devicesEndpoint ac)), w1)
                else
                  (case http_ReadErr resp of
                     Some m \<Rightarrow> (Inl (Wrap ''failed to read response body'' (Transport m)), w1)
                   | None \<Rightarrow>
                       (case unmarshal e (http_Body resp) of
                          Inl m \<Rightarrow> (Inl (Wrap ''failed to parse JSON response'' (Msg m)), w1)
                        | Inr apiResponse \<Rightarrow> (Inr apiResponse, w1)))))"

text \<open>\<open>err.(*APIError)\<close> with status 401.\<close>

fun is_unauthorized :: "err \<Rightarrow> bool" where
  "is_unauthorized (APIError code m ep) = (code = StatusUnauthorized)"
| "is_unauthorized _ = False"

definition FetchDevices :: "env \<Rightarrow> World \<Rightarrow> (err + APIResponse) \<times> World" where
  "FetchDevices e w0 =
     (let w = w0\<lparr>trace := trace w0 @ [EvFetchDevices]\<rparr>;
          jsonData = LimitData 10000
      in if \<not> authenticated (client w)
         then (Inl (Msg ''not authenticated - please login first''), w)
         else
           (case makeDevicesRequest e jsonData w of
              (Inr response, w1) \<Rightarrow> (Inr response, w1)
            | (Inl er, w1) \<Rightarrow>
                if is_unauthorized er
                then
                  (let w2 = w1\<lparr>client := (client w1)\<lparr>authenticated := False\<rparr>\<rparr>
                   in case Login e (cfg_Username (client w2)) (cfg_Password (client w2)) w2 of
                        (Some reAuthErr, w3) \<Rightarrow>
                          (Inl (Wrap ''failed to re-authenticate'' reAuthErr), w3)
                      | (None, w3) \<Rightarrow>
                          (case makeDevicesRequest e jsonData w3 of
                             (Inl er2, w4) \<Rightarrow>
                               (Inl (Wrap ''failed after re-authentication'' er2), w4)
                           | (Inr response, w4) \<Rightarrow> (Inr response, w4)))
                else (Inl er, w1)))"








subsection \<open>Reading the trace of the retry loop\<close>




section \<open>Layout engine: \<open>Render\<close>\<close>







section \<open>Layout engine: display width and truncation\<close>

text \<open>
  The regular expression \<open>\033\[[0-9;]*[a-zA-Z]\<close> of the source, on the bytes of a
  string. \<open>ansi_match s\<close> is the length of its match at the start of \<open>s\<close>, if there is
  one; the two character classes are disjoint, so the match is unique. The three
  functions of Go's \<open>regexp\<close> that the source uses take the leftmost match, then
  continue after it.
\<close>

definition ESC :: char where "ESC = CHR 0x1B"

definition is_param :: "char \<Rightarrow> bool" where
  "is_param c = ((48 \<le> (of_char c :: nat) \<and> (of_char c :: nat) \<le> 57) \<or> c = CHR '';'')"

definition is_letter :: "char \<Rightarrow> bool" where
  "is_letter c = ((97 \<le> (of_char c :: nat) \<and> (of_char c :: nat) \<le> 122) \<or>
                  (65 \<le> (of_char c :: nat) \<and> (of_char c :: nat) \<le> 90))"

definition ansi_match :: "string \<Rightarrow> nat option" where
  "ansi_match s =
     (case s of
        e # b # rest \<Rightarrow>
          if e = ESC \<and> b = CHR ''[''
          then (case dropWhile is_param rest of
                  l # _ \<Rightarrow> if is_letter l then Some (length (takeWhile is_param rest) + 3)
                           else None
                | [] \<Rightarrow> None)
          else None
      | _ \<Rightarrow> None)"

lemma ansi_match_bounds: "ansi_match s = Some n \<Longrightarrow> 0 < n \<and> n \<le> length s"
proof -
  assume a: "ansi_match s = Some n"
  then obtain e b rest where s: "s = e # b # rest"
    by (auto simp: ansi_match_def split: list.splits)
  have "length (takeWhile is_param rest) + length (dropWhile is_param rest) = length rest"
    by (metis length_append takeWhile_dropWhile_id)
  then show ?thesis using a s
    by (auto simp: ansi_match_def split: list.splits if_splits)
qed

text \<open>\<open>ansiRegex.ReplaceAllString(s, "")\<close>.\<close>

function ReplaceAllString :: "string \<Rightarrow> string" where
  "ReplaceAllString [] = []"
| "ReplaceAllString (c # cs) =
     (case ansi_match (c # cs) of
        Some n \<Rightarrow> ReplaceAllString (drop n (c # cs))
      | None \<Rightarrow> c # ReplaceAllString cs)"
  by pat_completeness auto
termination
  by (relation "measure length") (auto dest: ansi_match_bounds)

text \<open>\<open>ansiRegex.FindAllString(s, -1)\<close>.\<close>

function FindAllString :: "string \<Rightarrow> string list" where
  "FindAllString [] = []"
| "FindAllString (c # cs) =
     (case ansi_match (c # cs) of
        Some n \<Rightarrow> take n (c # cs) # FindAllString (drop n (c # cs))
      | None \<Rightarrow> FindAllString cs)"
  by pat_completeness auto
termination
  by (relation "measure length") (auto dest: ansi_match_bounds)

text \<open>
  \<open>ansiRegex.Split(s, -1)\<close>: the pieces between the matches, one more than there are
  matches (the empty string gives one empty piece). The first argument is the piece
  being read.
\<close>

function split_from :: "string \<Rightarrow> string \<Rightarrow> string list" where
  "split_from piece [] = [piece]"
| "split_from piece (c # cs) =
     (case ansi_match (c # cs) of
        Some n \<Rightarrow> piece # split_from [] (drop n (c # cs))
      | None \<Rightarrow> split_from (piece @ [c]) cs)"
  by pat_completeness auto
termination
  by (relation "measure (\<lambda>(piece, s). length s)") (auto dest: ansi_match_bounds)

definition Split :: "string \<Rightarrow> string list" where
  "Split s = split_from [] s"

text \<open>
  \<open>utf8.RuneCountInString\<close>. \<open>rune_size s\<close> is the number of bytes of the first rune of
  a non-empty \<open>s\<close>, as Go decodes it: a byte that does not start a well-formed encoding
  is one rune of one byte.
\<close>

definition rune_size :: "string \<Rightarrow> nat" where
  "rune_size s =
     (case s of
        [] \<Rightarrow> 0
      | c # cs \<Rightarrow>
          (let b = (of_char c :: nat) in
           if b < 0x80 then 1
           else if b < 0xC2 \<or> 0xF4 < b then 1
           else
             (let size = (if b < 0xE0 then 2 else if b < 0xF0 then 3 else 4 :: nat);
                  lo = (if b = 0xE0 then 0xA0 else if b = 0xF0 then 0x90 else 0x80 :: nat);
                  hi = (if b = 0xED then 0x9F else if b = 0xF4 then 0x8F else 0xBF :: nat)
              in if length s < size then 1
                 else if (of_char (cs ! 0) :: nat) < lo \<or> hi < (of_char (cs ! 0) :: nat) then 1
                 else if size = 2 then 2
                 else if (of_char (cs ! 1) :: nat) < 0x80 \<or> 0xBF < (of_char (cs ! 1) :: nat) then 1
                 else if size = 3 then 3
                 else if (of_char (cs ! 2) :: nat) < 0x80 \<or> 0xBF < (of_char (cs ! 2) :: nat) then 1
                 else 4)))"

function RuneCountInString :: "string \<Rightarrow> nat" where
  "RuneCountInString [] = 0"
| "RuneCountInString (c # cs) = Suc (RuneCountInString (drop (rune_size (c # cs) - 1) cs))"
  by pat_completeness auto
termination
  by (relation "measure length") auto

definition displayWidth :: "string \<Rightarrow> int" where
  "displayWidth s = int (RuneCountInString (ReplaceAllString s))"

definition stripColors :: "string \<Rightarrow> string" where
  "stripColors s = ReplaceAllString s"

definition ColorReset :: string where
  "ColorReset = [ESC, CHR ''['', CHR ''0'', CHR ''m'']"

text \<open>
  The loop of \<open>truncateString\<close> over \<open>textParts\<close>; the value is what the loop writes
  to the string builder. \<open>colorIndex\<close> and \<open>textLen\<close> are the loop's variables.
\<close>

fun truncate_loop :: "string list \<Rightarrow> string list \<Rightarrow> nat \<Rightarrow> int \<Rightarrow> int \<Rightarrow> string" where
  "truncate_loop [] colorCodes colorIndex textLen targetLen = []"
| "truncate_loop (part # parts) colorCodes colorIndex textLen targetLen =
     (if textLen \<ge> targetLen then []
      else
        (let remaining = targetLen - textLen
         in if int (length part) \<le> remaining
            then part @
              (if colorIndex < length colorCodes
               then colorCodes ! colorIndex @
                    truncate_loop parts colorCodes (colorIndex + 1)
                      (textLen + int (length part)) targetLen
               else truncate_loop parts colorCodes colorIndex
                      (textLen + int (length part)) targetLen)
            else take (nat remaining) part))"

text \<open>
  \<open>truncateString\<close>. The result is \<open>None\<close> where the Go code panics: the slice
  \<open>clean[:maxLen]\<close> with a negative \<open>maxLen\<close>.
\<close>

definition truncateString :: "string \<Rightarrow> int \<Rightarrow> string option" where
  "truncateString s maxLen =
     (let displayLen = displayWidth s
      in if displayLen \<le> maxLen then Some s
         else if maxLen \<le> 3 then
           (let clean = stripColors s
            in if int (length clean) \<le> maxLen then Some clean
               else if maxLen < 0 then None
               else Some (take (nat maxLen) clean))
         else
           (let clean = stripColors s
            in if int (length clean) \<le> maxLen - 3 then Some s
               else
                 (let colorCodes = FindAllString s;
                      textParts = Split s;
                      targetLen = maxLen - 3
                  in Some (truncate_loop textParts colorCodes 0 0 targetLen
                           @ ''...'' @ ColorReset))))"

subsection \<open>Example inputs\<close>

definition ex_ld :: "string \<Rightarrow> string \<Rightarrow> string \<Rightarrow> LogicalDevice" where
  "ex_ld i n t = \<lparr>ld_ID = i, ld_Name = n, ld_TopologyType = t, ld_VirtualContexts = []\<rparr>"

definition ex_pd :: "string \<Rightarrow> LogicalDevice \<Rightarrow> string option \<Rightarrow> PhysicalDevice" where
  "ex_pd i l r =
     \<lparr>pd_ID = i, pd_LogicalDevice = l, pd_Name = i, pd_Description = [],
      pd_Model = ''m'', pd_SerialNumber = [],
      pd_ConnectionState = ''PHYSICAL_DEVICE_CONNECTION_STATE_CONNECTED'',
      pd_Address = ''10.0.0.1'', pd_AddressType = [], pd_LastConnectedAt = [],
      pd_CreatedAt = [], pd_UpdatedAt = [],
      pd_AsNode = map_option (\<lambda>r. \<lparr>SyncLinkIP = [], SyncLinkPort = 0, Priority = 1,
                                      Role = r, SuspendMode = []\<rparr>) r,
      pd_SoftwareVersion = [], pd_TopologyType = [], pd_HealthStatus = [],
      pd_ConfigurationStatus = [], pd_ProductVersion = [], pd_LogicalDeviceChange = []\<rparr>"

definition ex_L1 :: LogicalDevice where
  "ex_L1 = ex_ld ''L1'' ''pair'' ''TOPOLOGY_TYPE_ACTIVE_STANDBY''"

definition ex_L2 :: LogicalDevice where
  "ex_L2 = ex_ld ''L2'' ''solo'' ''TOPOLOGY_TYPE_STANDALONE''"

text \<open>The scenario of the specification: an active/standby pair \<open>L1\<close> and a standalone \<open>L2\<close>.\<close>

definition ex_scenario :: APIResponse where
  "ex_scenario =
     \<lparr>resp_PhysicalDevices =
        [ex_pd ''n1'' ex_L1 (Some ''ACTIVE_STANDBY_ROLE_ACTIVE''),
         ex_pd ''n2'' ex_L1 (Some ''ACTIVE_STANDBY_ROLE_STANDBY''),
         ex_pd ''n3'' ex_L2 None],
      resp_Total = 3\<rparr>"

text \<open>Two members of one cluster that both report the active role.\<close>

definition ex_two_active :: APIResponse where
  "ex_two_active =
     \<lparr>resp_PhysicalDevices =
        [ex_pd ''a'' ex_L1 (Some ''ACTIVE_STANDBY_ROLE_ACTIVE''),
         ex_pd ''b'' ex_L1 (Some ''ACTIVE_STANDBY_ROLE_ACTIVE'')],
      resp_Total = 2\<rparr>"

text \<open>Two devices with the same logical-device id whose embedded records differ.\<close>

definition ex_conflict :: APIResponse where
  "ex_conflict =
     \<lparr>resp_PhysicalDevices =
        [ex_pd ''a'' ex_L1 (Some ''ACTIVE_STANDBY_ROLE_ACTIVE''),
         ex_pd ''b'' (ex_ld ''L1'' ''renamed'' ''TOPOLOGY_TYPE_STANDALONE'') None],
      resp_Total = 2\<rparr>"

text \<open>A client, responses and servers for the session client.\<close>

definition ex_client :: APIClient where
  "ex_client = \<lparr>cfg_Username = ''admin'', cfg_Password = ''secret'',
                 devicesEndpoint = ''https://mgmt/api/ListPhysicalDevices'',
                 loginEndpoint = ''https://mgmt/api/Login'',
                 authCookie = None, authenticated = False\<rparr>"

definition ex_cookie :: "string \<Rightarrow> Cookie" where
  "ex_cookie n = \<lparr>cookie_Name = n, cookie_Value = ''token''\<rparr>"

definition ex_response :: "int \<Rightarrow> string \<Rightarrow> Cookie list \<Rightarrow> http_result" where
  "ex_response code body cookies =
     DoResponse \<lparr>http_StatusCode = code, http_Body = body, http_ReadErr = None,
                 http_Cookies = cookies\<rparr>"

definition ex_env :: "(Request list \<Rightarrow> http_result) \<Rightarrow> env" where
  "ex_env srv = \<lparr>server = srv, url_ok = (\<lambda>u. True),
                  unmarshal = (\<lambda>b. if b = ''scenario'' then Inr ex_scenario else Inl ''bad JSON'')\<rparr>"

definition ex_world :: World where
  "ex_world = \<lparr>client = ex_client, trace = []\<rparr>"

definition ex_world_auth :: World where
  "ex_world_auth =
     \<lparr>client = ex_client\<lparr>authCookie := Some (ex_cookie ''Authorization''),
                           authenticated := True\<rparr>,
      trace = []\<rparr>"

text \<open>A server whose session has expired: 401, then a login that succeeds, then the list.\<close>

definition ex_reauth_server :: "Request list \<Rightarrow> http_result" where
  "ex_reauth_server reqs =
     (if length reqs = 1 then ex_response 401 [] []
      else if length reqs = 2 then ex_response 200 [] [ex_cookie ''Autorization'']
      else ex_response 200 ''scenario'' [])"





text \<open>A device name with a colored part, 26 characters wide.\<close>

definition ex_name :: string where
  "ex_name = ''very-long-'' @ [ESC] @ ''[32mdevice-name-1234'' @ ColorReset"

section \<open>Properties of the grouping engine\<close>

subsection \<open>Auxiliary facts\<close>

lemma mset_map_range_order: "mset (map_range_order ns xs) = mset xs"
proof (induction ns xs rule: map_range_order.induct)
  case (3 n ns x xs)
  define ys where "ys = x # xs"
  define k where "k = n mod length ys"
  have k: "k < length ys" by (simp add: k_def ys_def)
  have IH: "mset (map_range_order ns (take k ys @ drop (Suc k) ys)) = mset (take k ys @ drop (Suc k) ys)"
    using 3 unfolding k_def ys_def by simp
  have step: "map_range_order (n # ns) ys = ys ! k # map_range_order ns (take k ys @ drop (Suc k) ys)"
    unfolding k_def ys_def by (simp add: Let_def)
  have "mset ys = mset (take k ys @ ys ! k # drop (Suc k) ys)"
    using id_take_nth_drop[OF k] by simp
  then have "mset (map_range_order (n # ns) ys) = mset ys"
    unfolding step using IH by simp
  then show ?case by (simp only: ys_def)
qed simp_all

lemma build_snoc: "build_groupMap (ds @ [d]) = insert_device (build_groupMap ds) d"
  by (simp add: build_groupMap_def)

lemma build_distinct: "distinct (map fst (build_groupMap ds))"
proof (induction ds rule: rev_induct)
  case Nil show ?case by (simp add: build_groupMap_def)
next
  case (snoc d ds)
  then show ?case by (simp add: build_snoc insert_device_def distinct_update split: option.split)
qed

lemma build_lookup:
  "map_of (build_groupMap ds) k =
     (if k \<in> logicalID ` set ds
      then Some \<lparr>LogicalDevice = pd_LogicalDevice (hd (filter (\<lambda>d. logicalID d = k) ds)),
                 PhysicalDevices = filter (\<lambda>d. logicalID d = k) ds,
                 IsCluster = False, ActiveNode = None, StandbyNodes = []\<rparr>
      else None)"
proof (induction ds arbitrary: k rule: rev_induct)
  case Nil show ?case by (simp add: build_groupMap_def)
next
  case (snoc d ds)
  note old = snoc.IH[of "logicalID d"]
  show ?case
  proof (cases "k = logicalID d")
    case False
    then show ?thesis using snoc.IH[of k]
      by (auto simp add: build_snoc insert_device_def update_conv' split: option.split)
  next
    case True
    show ?thesis
    proof (cases "logicalID d \<in> logicalID ` set ds")
      case in_ds: True
      then have ne: "filter (\<lambda>x. logicalID x = logicalID d) ds \<noteq> []"
        by (auto simp: filter_empty_conv)
      from in_ds ne old True show ?thesis
        by (simp add: build_snoc insert_device_def update_conv')
    next
      case out: False
      then have "\<forall>x\<in>set ds. logicalID x \<noteq> logicalID d"
        by (metis imageI)
      then have e: "filter (\<lambda>x. logicalID x = logicalID d) ds = []"
        by (simp add: filter_empty_conv)
      from out e old True show ?thesis
        by (simp add: build_snoc insert_device_def update_conv')
    qed
  qed
qed

lemma build_entry:
  assumes "(k, g) \<in> set (build_groupMap ds)"
  shows "k \<in> logicalID ` set ds" and
        "g = \<lparr>LogicalDevice = pd_LogicalDevice (hd (filter (\<lambda>d. logicalID d = k) ds)),
                 PhysicalDevices = filter (\<lambda>d. logicalID d = k) ds,
                 IsCluster = False, ActiveNode = None, StandbyNodes = []\<rparr>"
proof -
  have "map_of (build_groupMap ds) k = Some g"
    using assms build_distinct by (simp add: map_of_eq_Some_iff)
  then show "k \<in> logicalID ` set ds" and
        "g = \<lparr>LogicalDevice = pd_LogicalDevice (hd (filter (\<lambda>d. logicalID d = k) ds)),
                 PhysicalDevices = filter (\<lambda>d. logicalID d = k) ds,
                 IsCluster = False, ActiveNode = None, StandbyNodes = []\<rparr>"
    by (simp_all add: build_lookup split: if_splits)
qed

lemma build_keys: "set (map fst (build_groupMap ds)) = logicalID ` set ds"
proof -
  have "dom (map_of (build_groupMap ds)) = logicalID ` set ds"
    by (auto simp: build_lookup split: if_splits)
  then show ?thesis by (simp add: dom_map_of_conv_image_fst)
qed

lemma scan_fields:
  "PhysicalDevices (foldl scan_node g is) = PhysicalDevices g \<and>
   LogicalDevice (foldl scan_node g is) = LogicalDevice g \<and>
   IsCluster (foldl scan_node g is) = IsCluster g"
  by (induction "is" arbitrary: g) (simp_all add: scan_node_def Let_def)

lemma analyze_fields:
  "PhysicalDevices (analyze_group g) = PhysicalDevices g"
  "LogicalDevice (analyze_group g) = LogicalDevice g"
  "IsCluster (analyze_group g) =
     (ld_TopologyType (LogicalDevice g) = ''TOPOLOGY_TYPE_ACTIVE_STANDBY'' \<or>
      ld_TopologyType (LogicalDevice g) = ''TOPOLOGY_TYPE_CLUSTER'')"
  by (simp_all add: analyze_group_def Let_def scan_fields)


lemma groups_set:
  "set (LogicalDeviceGroups (GroupDevicesByLogicalDevice order now response)) =
     (\<lambda>(k, g). analyze_group g) ` set (build_groupMap (resp_PhysicalDevices response))"
proof -
  have "set (map_range_order order (build_groupMap (resp_PhysicalDevices response))) =
        set (build_groupMap (resp_PhysicalDevices response))"
    using mset_map_range_order by (metis set_mset_mset)
  then show ?thesis by (simp add: GroupDevicesByLogicalDevice_def)
qed

lemma groups_mset:
  "mset (LogicalDeviceGroups (GroupDevicesByLogicalDevice order now response)) =
     image_mset (\<lambda>(k, g). analyze_group g) (mset (build_groupMap (resp_PhysicalDevices response)))"
  by (simp add: GroupDevicesByLogicalDevice_def mset_map_range_order)

lemma group_member:
  assumes "g \<in> set (LogicalDeviceGroups (GroupDevicesByLogicalDevice order now response))"
  shows "ld_ID (LogicalDevice g) \<in> logicalID ` set (resp_PhysicalDevices response)"
    and "PhysicalDevices g =
           filter (\<lambda>d. logicalID d = ld_ID (LogicalDevice g)) (resp_PhysicalDevices response)"
    and "LogicalDevice g = pd_LogicalDevice (hd (PhysicalDevices g))"
    and "g = analyze_group
           \<lparr>LogicalDevice = pd_LogicalDevice (hd (PhysicalDevices g)),
            PhysicalDevices = PhysicalDevices g,
            IsCluster = False, ActiveNode = None, StandbyNodes = []\<rparr>"
proof -
  let ?ds = "resp_PhysicalDevices response"
  from assms obtain k g0 where kg: "(k, g0) \<in> set (build_groupMap ?ds)" and g: "g = analyze_group g0"
    unfolding groups_set by auto
  note e = build_entry[OF kg]
  from e(1) have ne: "filter (\<lambda>d. logicalID d = k) ?ds \<noteq> []"
    by (auto simp: filter_empty_conv)
  then have "hd (filter (\<lambda>d. logicalID d = k) ?ds) \<in> set (filter (\<lambda>d. logicalID d = k) ?ds)"
    by (rule hd_in_set)
  then have hdk: "logicalID (hd (filter (\<lambda>d. logicalID d = k) ?ds)) = k" by simp
  have ld: "LogicalDevice g = pd_LogicalDevice (hd (filter (\<lambda>d. logicalID d = k) ?ds))"
    using g e(2) by (simp add: analyze_fields)
  then have idk: "ld_ID (LogicalDevice g) = k"
    using hdk by (simp add: logicalID_def)
  have pds: "PhysicalDevices g = filter (\<lambda>d. logicalID d = k) ?ds"
    using g e(2) by (simp add: analyze_fields)
  show "ld_ID (LogicalDevice g) \<in> logicalID ` set ?ds" using idk e(1) by simp
  show "PhysicalDevices g = filter (\<lambda>d. logicalID d = ld_ID (LogicalDevice g)) ?ds"
    using pds idk by simp
  show "LogicalDevice g = pd_LogicalDevice (hd (PhysicalDevices g))"
    using ld pds by simp
  show "g = analyze_group
           \<lparr>LogicalDevice = pd_LogicalDevice (hd (PhysicalDevices g)),
            PhysicalDevices = PhysicalDevices g,
            IsCluster = False, ActiveNode = None, StandbyNodes = []\<rparr>"
    using g e(2) pds by simp
qed

lemma groups_ids:
  "map (\<lambda>g. ld_ID (LogicalDevice g)) (LogicalDeviceGroups (GroupDevicesByLogicalDevice order now response))
   = map fst (map_range_order order (build_groupMap (resp_PhysicalDevices response)))"
proof -
  let ?ds = "resp_PhysicalDevices response"
  have "\<And>k g0. (k, g0) \<in> set (map_range_order order (build_groupMap ?ds)) \<Longrightarrow>
           ld_ID (LogicalDevice (analyze_group g0)) = k"
  proof -
    fix k g0 assume "(k, g0) \<in> set (map_range_order order (build_groupMap ?ds))"
    then have kg: "(k, g0) \<in> set (build_groupMap ?ds)"
      using mset_map_range_order by (metis set_mset_mset)
    note e = build_entry[OF kg]
    from e(1) have ne: "filter (\<lambda>d. logicalID d = k) ?ds \<noteq> []"
      by (auto simp: filter_empty_conv)
    then have "hd (filter (\<lambda>d. logicalID d = k) ?ds) \<in> set (filter (\<lambda>d. logicalID d = k) ?ds)"
      by (rule hd_in_set)
    then have "logicalID (hd (filter (\<lambda>d. logicalID d = k) ?ds)) = k" by simp
    then show "ld_ID (LogicalDevice (analyze_group g0)) = k"
      using e(2) by (simp add: analyze_fields logicalID_def)
  qed
  then show ?thesis
    by (auto simp add: GroupDevicesByLogicalDevice_def)
qed

lemma groups_distinct:
  "distinct (map (\<lambda>g. ld_ID (LogicalDevice g))
      (LogicalDeviceGroups (GroupDevicesByLogicalDevice order now response)))"
proof -
  let ?ds = "resp_PhysicalDevices response"
  have "mset (map fst (map_range_order order (build_groupMap ?ds))) = mset (map fst (build_groupMap ?ds))"
    by (simp add: mset_map_range_order)
  then have "distinct (map fst (map_range_order order (build_groupMap ?ds)))"
    using build_distinct by (metis mset_eq_imp_distinct_iff)
  then show ?thesis by (simp only: groups_ids)
qed


lemma update_new: "map_of al k = None \<Longrightarrow> AList.update k v al = al @ [(k, v)]"
  by (induction al) (auto split: if_splits)

lemma update_sum:
  fixes f :: "'v \<Rightarrow> nat"
  shows "map_of al k = Some g \<Longrightarrow>
    sum_list (map (\<lambda>(k, g). f g) (AList.update k g' al)) + f g =
    sum_list (map (\<lambda>(k, g). f g) al) + f g'"
  by (induction al) (auto split: if_splits)

lemma build_sum:
  "sum_list (map (\<lambda>(k, g). length (PhysicalDevices g)) (build_groupMap ds)) = length ds"
proof (induction ds rule: rev_induct)
  case Nil show ?case by (simp add: build_groupMap_def)
next
  case (snoc d ds)
  show ?case
  proof (cases "map_of (build_groupMap ds) (logicalID d)")
    case None
    then show ?thesis using snoc
      by (simp add: build_snoc insert_device_def update_new)
  next
    case (Some g)
    from update_sum[OF Some, of "\<lambda>g. length (PhysicalDevices g)" "g\<lparr>PhysicalDevices := PhysicalDevices g @ [d]\<rparr>"]
    show ?thesis using snoc Some
      by (simp add: build_snoc insert_device_def)
  qed
qed

lemma groups_sum:
  "sum_list (map (\<lambda>g. length (PhysicalDevices g))
      (LogicalDeviceGroups (GroupDevicesByLogicalDevice order now response)))
   = length (resp_PhysicalDevices response)"
proof -
  let ?ds = "resp_PhysicalDevices response"
  let ?f = "\<lambda>(k, g). length (PhysicalDevices g)"
  have "sum_list (map (\<lambda>g. length (PhysicalDevices g))
      (LogicalDeviceGroups (GroupDevicesByLogicalDevice order now response)))
     = sum_list (map ?f (map_range_order order (build_groupMap ?ds)))"
    by (simp add: GroupDevicesByLogicalDevice_def comp_def case_prod_unfold analyze_fields)
  also have "\<dots> = sum_mset (image_mset ?f (mset (map_range_order order (build_groupMap ?ds))))"
    by (metis mset_map sum_mset_sum_list)
  also have "\<dots> = sum_mset (image_mset ?f (mset (build_groupMap ?ds)))"
    by (simp only: mset_map_range_order)
  also have "\<dots> = sum_list (map ?f (build_groupMap ?ds))"
    by (metis mset_map sum_mset_sum_list)
  finally show ?thesis by (simp only: build_sum)
qed

lemma standby_not_active: "is_standby d \<Longrightarrow> \<not> is_active d"
  by (auto simp: is_standby_def is_active_def split: option.splits)

lemma scan_standby:
  "n \<le> length (PhysicalDevices g) \<Longrightarrow>
   StandbyNodes (foldl scan_node g [0..<n]) =
     StandbyNodes g @ filter is_standby (take n (PhysicalDevices g))"
proof (induction n)
  case 0 show ?case by simp
next
  case (Suc n)
  then have n: "n < length (PhysicalDevices g)" by simp
  have pd: "PhysicalDevices (foldl scan_node g [0..<n]) = PhysicalDevices g"
    by (simp add: scan_fields)
  define h where "h = foldl scan_node g [0..<n]"
  have step: "foldl scan_node g [0..<Suc n] = scan_node h n"
    by (simp add: h_def)
  have pdh: "PhysicalDevices h = PhysicalDevices g" using pd by (simp add: h_def)
  have IH: "StandbyNodes h = StandbyNodes g @ filter is_standby (take n (PhysicalDevices g))"
    using Suc by (simp add: h_def)
  have "StandbyNodes (scan_node h n) =
        StandbyNodes h @ filter is_standby [PhysicalDevices g ! n]"
    using pdh by (simp add: scan_node_def Let_def standby_not_active)
  then show ?case unfolding step using IH n
    by (simp add: take_Suc_conv_app_nth)
qed

lemma scan_active:
  "n \<le> length (PhysicalDevices g) \<Longrightarrow>
   (case ActiveNode (foldl scan_node g [0..<n]) of
      None \<Rightarrow> ActiveNode g = None \<and> (\<forall>j<n. \<not> is_active (PhysicalDevices g ! j))
    | Some i \<Rightarrow>
        (ActiveNode g = Some i \<and> (\<forall>j<n. \<not> is_active (PhysicalDevices g ! j))) \<or>
        (i < n \<and> is_active (PhysicalDevices g ! i) \<and>
         (\<forall>j. i < j \<and> j < n \<longrightarrow> \<not> is_active (PhysicalDevices g ! j))))"
proof (induction n)
  case 0 show ?case by (simp split: option.split)
next
  case (Suc n)
  then have n: "n < length (PhysicalDevices g)" by simp
  have pd: "PhysicalDevices (foldl scan_node g [0..<n]) = PhysicalDevices g"
    by (simp add: scan_fields)
  from Suc have IH: "case ActiveNode (foldl scan_node g [0..<n]) of
      None \<Rightarrow> ActiveNode g = None \<and> (\<forall>j<n. \<not> is_active (PhysicalDevices g ! j))
    | Some i \<Rightarrow>
        (ActiveNode g = Some i \<and> (\<forall>j<n. \<not> is_active (PhysicalDevices g ! j))) \<or>
        (i < n \<and> is_active (PhysicalDevices g ! i) \<and>
         (\<forall>j. i < j \<and> j < n \<longrightarrow> \<not> is_active (PhysicalDevices g ! j)))" by simp
  define h where "h = foldl scan_node g [0..<n]"
  have step: "foldl scan_node g [0..<Suc n] = scan_node h n"
    by (simp add: h_def)
  have pdh: "PhysicalDevices h = PhysicalDevices g" using pd by (simp add: h_def)
  show ?case
  proof (cases "is_active (PhysicalDevices g ! n)")
    case True
    then have "ActiveNode (scan_node h n) = Some n"
      using pdh by (simp add: scan_node_def Let_def)
    moreover have "\<forall>j. n < j \<and> j < Suc n \<longrightarrow> \<not> is_active (PhysicalDevices g ! j)"
      by auto
    ultimately show ?thesis unfolding step using True by simp
  next
    case False
    then have same: "ActiveNode (scan_node h n) = ActiveNode h"
      using pdh by (simp add: scan_node_def Let_def)
    show ?thesis unfolding step same using IH False unfolding h_def[symmetric]
      by (auto split: option.splits simp: less_Suc_eq)
  qed
qed

lemma analyze_cluster:
  assumes "ActiveNode g = None" "StandbyNodes g = []" "IsCluster (analyze_group g)"
  shows "StandbyNodes (analyze_group g) = filter is_standby (PhysicalDevices g)"
    and "case ActiveNode (analyze_group g) of
           None \<Rightarrow> \<forall>j<length (PhysicalDevices g). \<not> is_active (PhysicalDevices g ! j)
         | Some i \<Rightarrow> i < length (PhysicalDevices g) \<and> is_active (PhysicalDevices g ! i) \<and>
             (\<forall>j. i < j \<and> j < length (PhysicalDevices g) \<longrightarrow> \<not> is_active (PhysicalDevices g ! j))"
proof -
  let ?g = "g\<lparr>IsCluster := True\<rparr>"
  have a: "analyze_group g = foldl scan_node ?g [0..<length (PhysicalDevices ?g)]"
    using assms(3) by (simp add: analyze_fields) (simp add: analyze_group_def Let_def)
  show "StandbyNodes (analyze_group g) = filter is_standby (PhysicalDevices g)"
    unfolding a using scan_standby[of "length (PhysicalDevices ?g)" ?g] assms(2) by simp
  show "case ActiveNode (analyze_group g) of
           None \<Rightarrow> \<forall>j<length (PhysicalDevices g). \<not> is_active (PhysicalDevices g ! j)
         | Some i \<Rightarrow> i < length (PhysicalDevices g) \<and> is_active (PhysicalDevices g ! i) \<and>
             (\<forall>j. i < j \<and> j < length (PhysicalDevices g) \<longrightarrow> \<not> is_active (PhysicalDevices g ! j))"
    unfolding a using scan_active[of "length (PhysicalDevices ?g)" ?g] assms(1)
    by (auto split: option.splits)
qed

lemma analyze_not_cluster:
  assumes "ActiveNode g = None" "StandbyNodes g = []" "\<not> IsCluster (analyze_group g)"
  shows "StandbyNodes (analyze_group g) = []" and "ActiveNode (analyze_group g) = None"
  using assms by (simp_all add: analyze_fields) (simp_all add: analyze_group_def Let_def)


lemma find_filter:
  "find P xs = (case filter P xs of [] \<Rightarrow> None | x # _ \<Rightarrow> Some x)"
  by (induction xs) simp_all

subsection \<open>Partition of the devices (C4)\<close>

text \<open>
  Claim C4. For every input device list and every iteration order of the map,
  \<open>GroupDevicesByLogicalDevice\<close> partitions the devices: every physical device is a
  member of exactly one group; the logical-device id of that group is the device's own
  logical-device id; the member counts of the groups add up to the length of the input;
  and the members of a group are the devices of the input with the group's id, in the
  order of the input (fetch order). No two groups have the same id.
\<close>

theorem GroupDevices_partition:
  fixes response :: APIResponse and order :: "nat list" and now :: time
  defines "devices \<equiv> resp_PhysicalDevices response"
  defines "groups \<equiv> LogicalDeviceGroups (GroupDevicesByLogicalDevice order now response)"
  shows "(\<forall>d \<in> set devices. \<exists>!g. g \<in> set groups \<and> d \<in> set (PhysicalDevices g))
       \<and> (\<forall>g \<in> set groups. \<forall>d \<in> set (PhysicalDevices g).
             ld_ID (LogicalDevice g) = ld_ID (pd_LogicalDevice d))
       \<and> sum_list (map (\<lambda>g. length (PhysicalDevices g)) groups) = length devices
       \<and> (\<forall>g \<in> set groups. PhysicalDevices g =
             filter (\<lambda>d. ld_ID (pd_LogicalDevice d) = ld_ID (LogicalDevice g)) devices)
       \<and> distinct (map (\<lambda>g. ld_ID (LogicalDevice g)) groups)"
proof (intro conjI ballI)
  fix g assume g: "g \<in> set groups"
  show "PhysicalDevices g =
      filter (\<lambda>d. ld_ID (pd_LogicalDevice d) = ld_ID (LogicalDevice g)) devices"
    using group_member(2)[of g order now response] g
    unfolding groups_def devices_def logicalID_def by simp
  then show "ld_ID (LogicalDevice g) = ld_ID (pd_LogicalDevice d)"
    if "d \<in> set (PhysicalDevices g)" for d using that by (metis (mono_tags, lifting) mem_Collect_eq set_filter)
next
  show "sum_list (map (\<lambda>g. length (PhysicalDevices g)) groups) = length devices"
    unfolding groups_def devices_def by (rule groups_sum)
next
  show "distinct (map (\<lambda>g. ld_ID (LogicalDevice g)) groups)"
    unfolding groups_def by (rule groups_distinct)
next
  fix d assume d: "d \<in> set devices"
  have mem: "PhysicalDevices g = filter (\<lambda>d. logicalID d = ld_ID (LogicalDevice g)) devices"
    if "g \<in> set groups" for g
    using group_member(2)[of g order now response] that unfolding groups_def devices_def by simp
  have rebuild: "g = analyze_group
           \<lparr>LogicalDevice = pd_LogicalDevice (hd (PhysicalDevices g)),
            PhysicalDevices = PhysicalDevices g,
            IsCluster = False, ActiveNode = None, StandbyNodes = []\<rparr>"
    if "g \<in> set groups" for g
    using group_member(4)[of g order now response] that unfolding groups_def by simp
  have "logicalID d \<in> set (map fst (build_groupMap devices))"
    using d by (simp only: build_keys) simp
  then obtain g0 where kg: "(logicalID d, g0) \<in> set (build_groupMap devices)" by auto
  then have in_groups: "analyze_group g0 \<in> set groups"
    unfolding groups_def devices_def groups_set by force
  have "PhysicalDevices (analyze_group g0) = filter (\<lambda>x. logicalID x = logicalID d) devices"
    using build_entry(2)[OF kg] by (simp add: analyze_fields)
  then have d_in: "d \<in> set (PhysicalDevices (analyze_group g0))"
    using d by simp
  have uniq: "g = g'"
    if g: "g \<in> set groups" "d \<in> set (PhysicalDevices g)"
    and g': "g' \<in> set groups" "d \<in> set (PhysicalDevices g')" for g g'
  proof -
    have "ld_ID (LogicalDevice g) = logicalID d" using mem[OF g(1)] g(2) by auto
    moreover have "ld_ID (LogicalDevice g') = logicalID d" using mem[OF g'(1)] g'(2) by auto
    ultimately have "PhysicalDevices g = PhysicalDevices g'"
      using mem[OF g(1)] mem[OF g'(1)] by simp
    then show ?thesis using rebuild[OF g(1)] rebuild[OF g'(1)] by simp
  qed
  show "\<exists>!g. g \<in> set groups \<and> d \<in> set (PhysicalDevices g)"
  proof (rule ex1I[of _ "analyze_group g0"])
    show "analyze_group g0 \<in> set groups \<and> d \<in> set (PhysicalDevices (analyze_group g0))"
      using in_groups d_in by simp
  next
    fix g assume "g \<in> set groups \<and> d \<in> set (PhysicalDevices g)"
    then show "g = analyze_group g0" using uniq in_groups d_in by blast
  qed
qed



theorem GroupDevices_partition_witness:
  "ex_pd ''n2'' ex_L1 (Some ''ACTIVE_STANDBY_ROLE_STANDBY'') \<in> set (resp_PhysicalDevices ex_scenario)
   \<and> (\<exists>!g. g \<in> set (LogicalDeviceGroups (GroupDevicesByLogicalDevice [1] 7 ex_scenario))
            \<and> ex_pd ''n2'' ex_L1 (Some ''ACTIVE_STANDBY_ROLE_STANDBY'') \<in> set (PhysicalDevices g))
   \<and> LogicalDeviceGroups (GroupDevicesByLogicalDevice [1] 7 ex_scenario) \<noteq> []
   \<and> sum_list (map (\<lambda>g. length (PhysicalDevices g))
        (LogicalDeviceGroups (GroupDevicesByLogicalDevice [1] 7 ex_scenario))) = 3"
proof -
  note t = GroupDevices_partition[of ex_scenario "[1]" 7]
  have d: "ex_pd ''n2'' ex_L1 (Some ''ACTIVE_STANDBY_ROLE_STANDBY'') \<in> set (resp_PhysicalDevices ex_scenario)"
    by (simp add: ex_scenario_def)
  have n: "length (resp_PhysicalDevices ex_scenario) = 3"
    by (simp add: ex_scenario_def)
  have ne: "length (LogicalDeviceGroups (GroupDevicesByLogicalDevice [1] 7 ex_scenario)) = 2"
    by code_simp
  from ne have ne': "LogicalDeviceGroups (GroupDevicesByLogicalDevice [1] 7 ex_scenario) \<noteq> []"
    by auto
  from t have ex: "\<forall>d\<in>set (resp_PhysicalDevices ex_scenario).
      \<exists>!g. g \<in> set (LogicalDeviceGroups (GroupDevicesByLogicalDevice [1] 7 ex_scenario))
          \<and> d \<in> set (PhysicalDevices g)"
    by (rule conjunct1)
  from t have sum: "sum_list (map (\<lambda>g. length (PhysicalDevices g))
        (LogicalDeviceGroups (GroupDevicesByLogicalDevice [1] 7 ex_scenario)))
      = length (resp_PhysicalDevices ex_scenario)"
    by (elim conjE)
  show ?thesis
    using d bspec[OF ex d] ne' sum unfolding n by (intro conjI)
qed

subsection \<open>Active and standby nodes (C3)\<close>

text \<open>
  Claim C3, as stated, says that the first member in fetch order whose role is active
  becomes the \<open>ActiveNode\<close>. The loop has no \<open>break\<close> and overwrites \<open>ActiveNode\<close> at
  every active member, so the last one is kept: with two active members the
  \<open>ActiveNode\<close> is the second (index 1), not the first (index 0).
\<close>

theorem ActiveNode_first_counterexample:
  "map IsCluster (LogicalDeviceGroups (GroupDevicesByLogicalDevice [] 0 ex_two_active)) = [True]
   \<and> map (\<lambda>g. map is_active (PhysicalDevices g))
        (LogicalDeviceGroups (GroupDevicesByLogicalDevice [] 0 ex_two_active)) = [[True, True]]
   \<and> map ActiveNode (LogicalDeviceGroups (GroupDevicesByLogicalDevice [] 0 ex_two_active)) = [Some 1]
   \<and> map ActiveNode (LogicalDeviceGroups (GroupDevicesByLogicalDevice [] 0 ex_two_active)) \<noteq> [Some 0]"
proof -
  have a: "map IsCluster (LogicalDeviceGroups (GroupDevicesByLogicalDevice [] 0 ex_two_active)) = [True]"
    by code_simp
  have b: "map (\<lambda>g. map is_active (PhysicalDevices g))
        (LogicalDeviceGroups (GroupDevicesByLogicalDevice [] 0 ex_two_active)) = [[True, True]]"
    by code_simp
  have c: "map ActiveNode (LogicalDeviceGroups (GroupDevicesByLogicalDevice [] 0 ex_two_active)) = [Some 1]"
    by code_simp
  from a b c show ?thesis by simp
qed

text \<open>
  Claim C3, amended. For every input device list, every iteration order and every group
  of the output: if the cluster flag is true, \<open>ActiveNode\<close> points at the last member in
  fetch order whose node-role is active (and is nil when no member is active),
  \<open>StandbyNodes\<close> holds exactly the members whose node-role is standby, in fetch order,
  and every device of the input with the group's id is a member whatever its role; if
  the cluster flag is false, \<open>ActiveNode\<close> is nil and \<open>StandbyNodes\<close> is empty.
\<close>

theorem ActiveNode_StandbyNodes:
  fixes response :: APIResponse and order :: "nat list" and now :: time
  defines "devices \<equiv> resp_PhysicalDevices response"
  defines "groups \<equiv> LogicalDeviceGroups (GroupDevicesByLogicalDevice order now response)"
  shows "\<forall>g \<in> set groups.
          PhysicalDevices g =
            filter (\<lambda>d. ld_ID (pd_LogicalDevice d) = ld_ID (LogicalDevice g)) devices
        \<and> (IsCluster g \<longrightarrow>
             StandbyNodes g = filter is_standby (PhysicalDevices g)
           \<and> (case ActiveNode g of
                None \<Rightarrow> \<forall>j<length (PhysicalDevices g). \<not> is_active (PhysicalDevices g ! j)
              | Some i \<Rightarrow>
                  i < length (PhysicalDevices g) \<and> is_active (PhysicalDevices g ! i) \<and>
                  (\<forall>j. i < j \<and> j < length (PhysicalDevices g) \<longrightarrow>
                       \<not> is_active (PhysicalDevices g ! j))))
        \<and> (\<not> IsCluster g \<longrightarrow> ActiveNode g = None \<and> StandbyNodes g = [])"
proof
  fix g assume g: "g \<in> set groups"
  define g0 where "g0 = \<lparr>LogicalDevice = pd_LogicalDevice (hd (PhysicalDevices g)),
            PhysicalDevices = PhysicalDevices g,
            IsCluster = False, ActiveNode = None, StandbyNodes = []\<rparr>"
  have eq: "g = analyze_group g0"
    using group_member(4)[of g order now response] g unfolding groups_def g0_def by simp
  have init: "ActiveNode g0 = None" "StandbyNodes g0 = []" "PhysicalDevices g0 = PhysicalDevices g"
    by (simp_all add: g0_def)
  have members: "PhysicalDevices g =
      filter (\<lambda>d. ld_ID (pd_LogicalDevice d) = ld_ID (LogicalDevice g)) devices"
    using group_member(2)[of g order now response] g
    unfolding groups_def devices_def logicalID_def by simp
  have cluster: "StandbyNodes g = filter is_standby (PhysicalDevices g)
           \<and> (case ActiveNode g of
                None \<Rightarrow> \<forall>j<length (PhysicalDevices g). \<not> is_active (PhysicalDevices g ! j)
              | Some i \<Rightarrow>
                  i < length (PhysicalDevices g) \<and> is_active (PhysicalDevices g ! i) \<and>
                  (\<forall>j. i < j \<and> j < length (PhysicalDevices g) \<longrightarrow>
                       \<not> is_active (PhysicalDevices g ! j)))" if "IsCluster g"
    using analyze_cluster[of g0] that unfolding eq[symmetric] init by simp
  have plain: "ActiveNode g = None \<and> StandbyNodes g = []" if "\<not> IsCluster g"
    using analyze_not_cluster[of g0] that unfolding eq[symmetric] init by simp
  show "PhysicalDevices g =
            filter (\<lambda>d. ld_ID (pd_LogicalDevice d) = ld_ID (LogicalDevice g)) devices
        \<and> (IsCluster g \<longrightarrow>
             StandbyNodes g = filter is_standby (PhysicalDevices g)
           \<and> (case ActiveNode g of
                None \<Rightarrow> \<forall>j<length (PhysicalDevices g). \<not> is_active (PhysicalDevices g ! j)
              | Some i \<Rightarrow>
                  i < length (PhysicalDevices g) \<and> is_active (PhysicalDevices g ! i) \<and>
                  (\<forall>j. i < j \<and> j < length (PhysicalDevices g) \<longrightarrow>
                       \<not> is_active (PhysicalDevices g ! j))))
        \<and> (\<not> IsCluster g \<longrightarrow> ActiveNode g = None \<and> StandbyNodes g = [])"
  proof (intro conjI impI)
    show "PhysicalDevices g =
        filter (\<lambda>d. ld_ID (pd_LogicalDevice d) = ld_ID (LogicalDevice g)) devices"
      by (rule members)
  next
    assume "IsCluster g"
    from cluster[OF this]
    show "StandbyNodes g = filter is_standby (PhysicalDevices g)"
      and "case ActiveNode g of
                None \<Rightarrow> \<forall>j<length (PhysicalDevices g). \<not> is_active (PhysicalDevices g ! j)
              | Some i \<Rightarrow>
                  i < length (PhysicalDevices g) \<and> is_active (PhysicalDevices g ! i) \<and>
                  (\<forall>j. i < j \<and> j < length (PhysicalDevices g) \<longrightarrow>
                       \<not> is_active (PhysicalDevices g ! j))"
      by (rule conjunct1, rule conjunct2)
  next
    assume "\<not> IsCluster g"
    from plain[OF this] show "ActiveNode g = None" and "StandbyNodes g = []"
      by (rule conjunct1, rule conjunct2)
  qed
qed


theorem ActiveNode_StandbyNodes_witness:
  "hd (LogicalDeviceGroups (GroupDevicesByLogicalDevice [] 0 ex_two_active))
     \<in> set (LogicalDeviceGroups (GroupDevicesByLogicalDevice [] 0 ex_two_active))
   \<and> IsCluster (hd (LogicalDeviceGroups (GroupDevicesByLogicalDevice [] 0 ex_two_active)))
   \<and> StandbyNodes (hd (LogicalDeviceGroups (GroupDevicesByLogicalDevice [] 0 ex_two_active))) = []
   \<and> ActiveNode (hd (LogicalDeviceGroups (GroupDevicesByLogicalDevice [] 0 ex_two_active))) = Some 1
   \<and> last (LogicalDeviceGroups (GroupDevicesByLogicalDevice [] 0 ex_scenario))
     \<in> set (LogicalDeviceGroups (GroupDevicesByLogicalDevice [] 0 ex_scenario))
   \<and> \<not> IsCluster (last (LogicalDeviceGroups (GroupDevicesByLogicalDevice [] 0 ex_scenario)))
   \<and> ActiveNode (last (LogicalDeviceGroups (GroupDevicesByLogicalDevice [] 0 ex_scenario))) = None
   \<and> StandbyNodes (last (LogicalDeviceGroups (GroupDevicesByLogicalDevice [] 0 ex_scenario))) = []"
proof -
  define G where "G = LogicalDeviceGroups (GroupDevicesByLogicalDevice [] 0 ex_two_active)"
  define H where "H = LogicalDeviceGroups (GroupDevicesByLogicalDevice [] 0 ex_scenario)"
  have lenG: "length G = 1" unfolding G_def by code_simp
  have lenH: "length H = 2" unfolding H_def by code_simp
  have inG: "hd G \<in> set G" using lenG by (cases G) simp_all
  have inH: "last H \<in> set H" using lenH by (cases H) auto
  have clG: "IsCluster (hd G)" unfolding G_def by code_simp
  have clH: "\<not> IsCluster (last H)" unfolding H_def by code_simp
  have actG: "map is_active (PhysicalDevices (hd G)) = [True, True]"
    unfolding G_def by code_simp
  have sbG: "filter is_standby (PhysicalDevices (hd G)) = []"
    unfolding G_def by code_simp
  note tG = bspec[OF ActiveNode_StandbyNodes[of "[]" 0 ex_two_active, folded G_def] inG]
  note tH = bspec[OF ActiveNode_StandbyNodes[of "[]" 0 ex_scenario, folded H_def] inH]
  from tG clG sbG have G1: "StandbyNodes (hd G) = []" by simp
  have len2: "length (PhysicalDevices (hd G)) = 2" and a1: "is_active (PhysicalDevices (hd G) ! 1)"
    using actG by (auto simp: map_eq_Cons_conv)
  from tG clG have "case ActiveNode (hd G) of
                None \<Rightarrow> \<forall>j<length (PhysicalDevices (hd G)). \<not> is_active (PhysicalDevices (hd G) ! j)
              | Some i \<Rightarrow>
                  i < length (PhysicalDevices (hd G)) \<and> is_active (PhysicalDevices (hd G) ! i) \<and>
                  (\<forall>j. i < j \<and> j < length (PhysicalDevices (hd G)) \<longrightarrow>
                       \<not> is_active (PhysicalDevices (hd G) ! j))" by simp
  then have G2: "ActiveNode (hd G) = Some 1"
    using len2 a1 by (auto split: option.splits simp: less_Suc_eq numeral_2_eq_2)
  from tH clH have H1: "ActiveNode (last H) = None" "StandbyNodes (last H) = []" by simp_all
  show ?thesis
    using inG clG G1 G2 inH clH H1 unfolding G_def H_def by (intro conjI)
qed

subsection \<open>Repeated calls (C5)\<close>

text \<open>
  Claim C5, as stated, says that two calls on the same input give structurally equal
  output. The groups are appended while ranging over a Go map, whose iteration order
  differs from run to run, and \<open>LastUpdated\<close> is \<open>time.Now()\<close>: two calls on the
  scenario input list the groups in different orders, or carry different timestamps.
\<close>

theorem GroupDevices_idempotent_counterexample:
  "GroupDevicesByLogicalDevice [0] 0 ex_scenario \<noteq> GroupDevicesByLogicalDevice [1] 0 ex_scenario
   \<and> GroupDevicesByLogicalDevice [] 0 ex_scenario \<noteq> GroupDevicesByLogicalDevice [] 1 ex_scenario"
proof -
  have a: "map (\<lambda>g. ld_ID (LogicalDevice g))
             (LogicalDeviceGroups (GroupDevicesByLogicalDevice [0] 0 ex_scenario)) = [''L1'', ''L2'']"
    by code_simp
  have b: "map (\<lambda>g. ld_ID (LogicalDevice g))
             (LogicalDeviceGroups (GroupDevicesByLogicalDevice [1] 0 ex_scenario)) = [''L2'', ''L1'']"
    by code_simp
  have "GroupDevicesByLogicalDevice [0] 0 ex_scenario \<noteq> GroupDevicesByLogicalDevice [1] 0 ex_scenario"
  proof
    assume "GroupDevicesByLogicalDevice [0] 0 ex_scenario = GroupDevicesByLogicalDevice [1] 0 ex_scenario"
    with a b have "[''L1'', ''L2''] = [''L2'', ''L1'']" by simp
    then show False by simp
  qed
  moreover have "GroupDevicesByLogicalDevice [] 0 ex_scenario \<noteq> GroupDevicesByLogicalDevice [] 1 ex_scenario"
  proof
    assume "GroupDevicesByLogicalDevice [] 0 ex_scenario = GroupDevicesByLogicalDevice [] 1 ex_scenario"
    then have "LastUpdated (GroupDevicesByLogicalDevice [] 0 ex_scenario)
             = LastUpdated (GroupDevicesByLogicalDevice [] 1 ex_scenario)" by simp
    then show False by (simp add: GroupDevicesByLogicalDevice_def)
  qed
  ultimately show ?thesis by (rule conjI)
qed

text \<open>
  Claim C5, amended. For every input device list, any two calls of
  \<open>GroupDevicesByLogicalDevice\<close> (whatever the iteration orders and the clock readings)
  yield the same groups up to their order in the list, and the same \<open>TotalDevices\<close>;
  only the order of the groups and \<open>LastUpdated\<close> can differ.
\<close>

theorem GroupDevices_same_groups:
  "mset (LogicalDeviceGroups (GroupDevicesByLogicalDevice order1 now1 response)) =
   mset (LogicalDeviceGroups (GroupDevicesByLogicalDevice order2 now2 response))
   \<and> TotalDevices (GroupDevicesByLogicalDevice order1 now1 response) =
     TotalDevices (GroupDevicesByLogicalDevice order2 now2 response)"
  by (simp add: groups_mset) (simp add: GroupDevicesByLogicalDevice_def)

subsection \<open>The logical-device record of a group (C10)\<close>

text \<open>
  Claim C10. Every group carries the \<open>LogicalDevice\<close> record embedded in the first
  device, in fetch order, that has the group's logical-device id; the records embedded
  in later devices with the same id are not used, and the cluster flag is computed from
  the topology type of that first record only.
\<close>

theorem group_LogicalDevice_first:
  fixes response :: APIResponse and order :: "nat list" and now :: time
  defines "devices \<equiv> resp_PhysicalDevices response"
  defines "groups \<equiv> LogicalDeviceGroups (GroupDevicesByLogicalDevice order now response)"
  shows "\<forall>g \<in> set groups. \<exists>d.
           find (\<lambda>d. ld_ID (pd_LogicalDevice d) = ld_ID (LogicalDevice g)) devices = Some d
         \<and> LogicalDevice g = pd_LogicalDevice d
         \<and> IsCluster g =
             (ld_TopologyType (pd_LogicalDevice d) = ''TOPOLOGY_TYPE_ACTIVE_STANDBY'' \<or>
              ld_TopologyType (pd_LogicalDevice d) = ''TOPOLOGY_TYPE_CLUSTER'')"
proof
  fix g assume g: "g \<in> set groups"
  let ?P = "\<lambda>d. ld_ID (pd_LogicalDevice d) = ld_ID (LogicalDevice g)"
  note m = group_member[of g order now response, folded groups_def devices_def, OF g]
  from m(1) have ne: "filter ?P devices \<noteq> []"
    by (auto simp: filter_empty_conv logicalID_def)
  have pds: "PhysicalDevices g = filter ?P devices"
    using m(2) by (simp add: logicalID_def)
  have f: "find ?P devices = Some (hd (PhysicalDevices g))"
    using ne unfolding pds by (simp add: find_filter split: list.splits)
  have "IsCluster g =
      (ld_TopologyType (LogicalDevice g) = ''TOPOLOGY_TYPE_ACTIVE_STANDBY'' \<or>
       ld_TopologyType (LogicalDevice g) = ''TOPOLOGY_TYPE_CLUSTER'')"
    using m(3) by (subst m(4)) (simp add: analyze_fields)
  with f m(3)
  show "\<exists>d. find ?P devices = Some d
         \<and> LogicalDevice g = pd_LogicalDevice d
         \<and> IsCluster g =
             (ld_TopologyType (pd_LogicalDevice d) = ''TOPOLOGY_TYPE_ACTIVE_STANDBY'' \<or>
              ld_TopologyType (pd_LogicalDevice d) = ''TOPOLOGY_TYPE_CLUSTER'')"
    by (intro exI[of _ "hd (PhysicalDevices g)"]) simp
qed

theorem group_LogicalDevice_first_witness:
  "hd (LogicalDeviceGroups (GroupDevicesByLogicalDevice [] 0 ex_conflict))
     \<in> set (LogicalDeviceGroups (GroupDevicesByLogicalDevice [] 0 ex_conflict))
   \<and> map pd_LogicalDevice (resp_PhysicalDevices ex_conflict)
       = [ex_L1, ex_ld ''L1'' ''renamed'' ''TOPOLOGY_TYPE_STANDALONE'']
   \<and> LogicalDevice (hd (LogicalDeviceGroups (GroupDevicesByLogicalDevice [] 0 ex_conflict))) = ex_L1
   \<and> IsCluster (hd (LogicalDeviceGroups (GroupDevicesByLogicalDevice [] 0 ex_conflict)))"
proof -
  define G where "G = LogicalDeviceGroups (GroupDevicesByLogicalDevice [] 0 ex_conflict)"
  have lenG: "length G = 1" unfolding G_def by code_simp
  have inG: "hd G \<in> set G" using lenG by (cases G) simp_all
  have idG: "ld_ID (LogicalDevice (hd G)) = ''L1''" unfolding G_def by code_simp
  have lds: "map pd_LogicalDevice (resp_PhysicalDevices ex_conflict)
       = [ex_L1, ex_ld ''L1'' ''renamed'' ''TOPOLOGY_TYPE_STANDALONE'']"
    by (simp add: ex_conflict_def ex_pd_def)
  have fnd: "find (\<lambda>d. ld_ID (pd_LogicalDevice d) = ''L1'') (resp_PhysicalDevices ex_conflict)
      = Some (ex_pd ''a'' ex_L1 (Some ''ACTIVE_STANDBY_ROLE_ACTIVE''))"
    by (simp add: ex_conflict_def ex_pd_def ex_L1_def ex_ld_def)
  from bspec[OF group_LogicalDevice_first[of "[]" 0 ex_conflict, folded G_def] inG]
  have "LogicalDevice (hd G) = ex_L1 \<and> IsCluster (hd G)"
    unfolding idG fnd by (auto simp: ex_pd_def ex_L1_def ex_ld_def)
  then show ?thesis using inG lds unfolding G_def by (intro conjI) simp_all
qed


section \<open>Properties of the session client\<close>

subsection \<open>Auxiliary facts\<close>

lemma requests_append: "requests (a @ b) = requests a @ requests b"
  by (induction a rule: requests.induct) simp_all

lemma Do_simp:
  "Do e req w = (server e (requests (trace w) @ [req]), w\<lparr>trace := trace w @ [EvDo req]\<rparr>)"
  by (simp add: Do_def Let_def requests_append)

lemma scan_cookies_find:
  "scan_cookies cs ac =
     (case find (\<lambda>c. cookie_Name c = ''Authorization'' \<or> cookie_Name c = ''Autorization'') cs of
        None \<Rightarrow> ac | Some c \<Rightarrow> ac\<lparr>authCookie := Some c, authenticated := True\<rparr>)"
  by (induction cs) simp_all

subsection \<open>Login (C6)\<close>

text \<open>
  Claim C6, as stated, says that the session cookie is recognised case-insensitively
  and that a response without a session cookie always makes \<open>Login\<close> fail. The code
  compares the cookie name with \<open>==\<close> against the two spellings, so a cookie named
  \<open>authorization\<close> is not accepted; and the final test reads the client's
  \<open>authenticated\<close> flag, which \<open>Login\<close> never clears, so on a client already marked
  authenticated a 200 response without any cookie makes \<open>Login\<close> return nil.
\<close>

theorem Login_case_insensitive_counterexample:
  "fst (Login (ex_env (\<lambda>reqs. ex_response 200 [] [ex_cookie ''authorization'']))
          ''admin'' ''secret'' ex_world)
     = Some (Msg ''no Authorization cookie received from login response'')
   \<and> \<not> authenticated (client (snd (Login
          (ex_env (\<lambda>reqs. ex_response 200 [] [ex_cookie ''authorization'']))
          ''admin'' ''secret'' ex_world)))
   \<and> fst (Login (ex_env (\<lambda>reqs. ex_response 200 [] [])) ''admin'' ''secret'' ex_world_auth)
     = None"
  by (simp add: Login_def Do_simp Let_def ex_env_def ex_response_def ex_cookie_def
        ex_world_def ex_world_auth_def ex_client_def StatusOK_def)

text \<open>
  Claim C6, amended. For every \<open>Login\<close> call whose request can be built: if the response
  status is not 200, the call fails with an \<open>APIError\<close> carrying the status and the
  body, and the client is unchanged; if the status is 200, no cookie of the response is
  named exactly \<open>Authorization\<close> or \<open>Autorization\<close>, and the client was not marked
  authenticated before the call, the call fails and the client is unchanged (so still
  not authenticated); if the status is 200 and some cookie has exactly one of the two
  names, the first such cookie is stored, the client is marked authenticated and the
  call succeeds.
\<close>

theorem Login_outcome:
  fixes e :: env and w :: World and login password :: string
  defines "r \<equiv> server e (requests (trace w) @
                   [\<lparr>req_URL = loginEndpoint (client w),
                     req_Payload = LoginRequest login password, req_Cookie = None\<rparr>])"
  defines "res \<equiv> Login e login password w"
  assumes url: "url_ok e (loginEndpoint (client w))"
  shows "(\<forall>resp. r = DoResponse resp \<and> http_StatusCode resp \<noteq> 200 \<longrightarrow>
            fst res = Some (APIError (http_StatusCode resp) (http_Body resp)
                              (loginEndpoint (client w)))
          \<and> client (snd res) = client w)
       \<and> (\<forall>resp. r = DoResponse resp \<and> http_StatusCode resp = 200
            \<and> find (\<lambda>c. cookie_Name c = ''Authorization'' \<or> cookie_Name c = ''Autorization'')
                 (http_Cookies resp) = None
            \<and> \<not> authenticated (client w) \<longrightarrow>
            fst res = Some (Msg ''no Authorization cookie received from login response'')
          \<and> client (snd res) = client w)
       \<and> (\<forall>resp c. r = DoResponse resp \<and> http_StatusCode resp = 200
            \<and> find (\<lambda>c. cookie_Name c = ''Authorization'' \<or> cookie_Name c = ''Autorization'')
                 (http_Cookies resp) = Some c \<longrightarrow>
            fst res = None
          \<and> client (snd res) = (client w)\<lparr>authCookie := Some c, authenticated := True\<rparr>)"
  using url unfolding r_def res_def
  by (auto simp add: Login_def Do_def Let_def requests_append StatusOK_def scan_cookies_find
           split: prod.splits http_result.splits)

theorem Login_outcome_witness:
  "fst (Login (ex_env (\<lambda>reqs. ex_response 200 []
           [ex_cookie ''session'', ex_cookie ''Autorization'', ex_cookie ''Authorization'']))
          ''admin'' ''secret'' ex_world) = None
   \<and> client (snd (Login (ex_env (\<lambda>reqs. ex_response 200 []
           [ex_cookie ''session'', ex_cookie ''Autorization'', ex_cookie ''Authorization'']))
          ''admin'' ''secret'' ex_world))
      = ex_client\<lparr>authCookie := Some (ex_cookie ''Autorization''), authenticated := True\<rparr>
   \<and> fst (Login (ex_env (\<lambda>reqs. ex_response 403 ''forbidden'' []))
          ''admin'' ''secret'' ex_world)
      = Some (APIError 403 ''forbidden'' ''https://mgmt/api/Login'')
   \<and> \<not> authenticated (client (snd (Login (ex_env (\<lambda>reqs. ex_response 403 ''forbidden'' []))
          ''admin'' ''secret'' ex_world)))
   \<and> fst (Login (ex_env (\<lambda>reqs. ex_response 200 [] [ex_cookie ''session'']))
          ''admin'' ''secret'' ex_world)
      = Some (Msg ''no Authorization cookie received from login response'')
   \<and> \<not> authenticated (client (snd (Login (ex_env (\<lambda>reqs. ex_response 200 [] [ex_cookie ''session'']))
          ''admin'' ''secret'' ex_world)))"
proof -
  have u: "url_ok (ex_env srv) (loginEndpoint (client ex_world))" for srv
    by (simp add: ex_env_def)
  note a = Login_outcome[OF u, of "\<lambda>reqs. ex_response 200 []
           [ex_cookie ''session'', ex_cookie ''Autorization'', ex_cookie ''Authorization'']"
           "''admin''" "''secret''"]
  note b = Login_outcome[OF u, of "\<lambda>reqs. ex_response 403 ''forbidden'' []"
           "''admin''" "''secret''"]
  note c = Login_outcome[OF u, of "\<lambda>reqs. ex_response 200 [] [ex_cookie ''session'']"
           "''admin''" "''secret''"]
  from a have A: "fst (Login (ex_env (\<lambda>reqs. ex_response 200 []
           [ex_cookie ''session'', ex_cookie ''Autorization'', ex_cookie ''Authorization'']))
          ''admin'' ''secret'' ex_world) = None
   \<and> client (snd (Login (ex_env (\<lambda>reqs. ex_response 200 []
           [ex_cookie ''session'', ex_cookie ''Autorization'', ex_cookie ''Authorization'']))
          ''admin'' ''secret'' ex_world))
      = ex_client\<lparr>authCookie := Some (ex_cookie ''Autorization''), authenticated := True\<rparr>"
    by (simp add: ex_env_def ex_response_def ex_cookie_def ex_world_def)
  from b have B: "fst (Login (ex_env (\<lambda>reqs. ex_response 403 ''forbidden'' []))
          ''admin'' ''secret'' ex_world)
      = Some (APIError 403 ''forbidden'' ''https://mgmt/api/Login'')
   \<and> \<not> authenticated (client (snd (Login (ex_env (\<lambda>reqs. ex_response 403 ''forbidden'' []))
          ''admin'' ''secret'' ex_world)))"
    by (simp add: ex_env_def ex_response_def ex_cookie_def ex_world_def ex_client_def)
  from c have C: "fst (Login (ex_env (\<lambda>reqs. ex_response 200 [] [ex_cookie ''session'']))
          ''admin'' ''secret'' ex_world)
      = Some (Msg ''no Authorization cookie received from login response'')
   \<and> \<not> authenticated (client (snd (Login (ex_env (\<lambda>reqs. ex_response 200 [] [ex_cookie ''session'']))
          ''admin'' ''secret'' ex_world)))"
    by (simp add: ex_env_def ex_response_def ex_cookie_def ex_world_def ex_client_def)
  from A B C show ?thesis by (intro conjI) simp_all
qed

subsection \<open>Re-authentication in FetchDevices (C1)\<close>

text \<open>
  Claim C1. Let the client be authenticated and let the server answer the first device
  request of a \<open>FetchDevices\<close> call with status 401. Then the client clears its
  authenticated flag and calls \<open>Login\<close> exactly once, with the user name and password of
  its configuration. If that login fails (its request cannot be built, transport error,
  status other than 200, or no session cookie), the call returns the login's error wrapped in
  \<open>failed to re-authenticate\<close>, no second device request is sent and the client is left
  unauthenticated. If the login succeeds, the device request is sent exactly once more,
  with the new cookie, and the client is authenticated afterwards; a failure of the
  second request (transport error, any status other than 200 including a second 401,
  unreadable or unparsable body) is returned wrapped in \<open>failed after re-authentication\<close>,
  and a 200 response with a parsable body makes the call return the parsed device list.
  The trace lists every call and request of the \<open>FetchDevices\<close> call, so the counts can
  be read off it.
\<close>

theorem FetchDevices_reauth:
  fixes e :: env and w :: World and r1 :: Response
  defines "ac \<equiv> client w"
  defines "H \<equiv> requests (trace w)"
  defines "req1 \<equiv> \<lparr>req_URL = devicesEndpoint ac, req_Payload = LimitData 10000,
                     req_Cookie = authCookie ac\<rparr>"
  defines "reqL \<equiv> \<lparr>req_URL = loginEndpoint ac,
                     req_Payload = LoginRequest (cfg_Username ac) (cfg_Password ac),
                     req_Cookie = None\<rparr>"
  defines "req2 \<equiv> \<lambda>c. \<lparr>req_URL = devicesEndpoint ac, req_Payload = LimitData 10000,
                     req_Cookie = Some c\<rparr>"
  defines "rL \<equiv> server e (H @ [req1, reqL])"
  defines "r2 \<equiv> \<lambda>c. server e (H @ [req1, reqL, req2 c])"
  defines "res \<equiv> FetchDevices e w"
  defines "failed_login \<equiv>
             trace (snd res) = trace w @ [EvFetchDevices, EvDo req1,
                                 EvLogin (cfg_Username ac) (cfg_Password ac), EvDo reqL]
             \<and> \<not> authenticated (client (snd res))"
  assumes auth: "authenticated ac"
      and url: "url_ok e (devicesEndpoint ac)"
      and first: "server e (H @ [req1]) = DoResponse r1" "http_StatusCode r1 = 401"
  shows "(\<not> url_ok e (loginEndpoint ac) \<longrightarrow>
            fst res = Inl (Wrap ''failed to re-authenticate''
                        (Wrap ''failed to create login request'' (Msg ''invalid URL'')))
            \<and> trace (snd res) = trace w @ [EvFetchDevices, EvDo req1,
                                 EvLogin (cfg_Username ac) (cfg_Password ac)]
            \<and> \<not> authenticated (client (snd res)))
       \<and> (\<forall>m. url_ok e (loginEndpoint ac) \<and> rL = DoError m \<longrightarrow>
            fst res = Inl (Wrap ''failed to re-authenticate''
                        (Wrap ''failed to execute login request'' (Transport m)))
            \<and> failed_login)
       \<and> (\<forall>resp. url_ok e (loginEndpoint ac) \<and> rL = DoResponse resp
            \<and> http_StatusCode resp \<noteq> 200 \<longrightarrow>
            fst res = Inl (Wrap ''failed to re-authenticate''
                        (APIError (http_StatusCode resp) (http_Body resp) (loginEndpoint ac)))
            \<and> failed_login)
       \<and> (\<forall>resp. url_ok e (loginEndpoint ac) \<and> rL = DoResponse resp
            \<and> http_StatusCode resp = 200
            \<and> find (\<lambda>c. cookie_Name c = ''Authorization'' \<or> cookie_Name c = ''Autorization'')
                 (http_Cookies resp) = None \<longrightarrow>
            fst res = Inl (Wrap ''failed to re-authenticate''
                        (Msg ''no Authorization cookie received from login response''))
            \<and> failed_login)
       \<and> (\<forall>resp c. url_ok e (loginEndpoint ac) \<and> rL = DoResponse resp
            \<and> http_StatusCode resp = 200
            \<and> find (\<lambda>c. cookie_Name c = ''Authorization'' \<or> cookie_Name c = ''Autorization'')
                 (http_Cookies resp) = Some c \<longrightarrow>
            trace (snd res) = trace w @ [EvFetchDevices, EvDo req1,
                                EvLogin (cfg_Username ac) (cfg_Password ac), EvDo reqL,
                                EvDo (req2 c)]
            \<and> authenticated (client (snd res))
            \<and> authCookie (client (snd res)) = Some c
            \<and> (\<forall>m. r2 c = DoError m \<longrightarrow>
                  fst res = Inl (Wrap ''failed after re-authentication''
                              (Wrap ''failed to execute request'' (Transport m))))
            \<and> (\<forall>resp2. r2 c = DoResponse resp2 \<and> http_StatusCode resp2 \<noteq> 200 \<longrightarrow>
                  fst res = Inl (Wrap ''failed after re-authentication''
                              (APIError (http_StatusCode resp2)
                                 (if http_StatusCode resp2 = 401 then ''authentication expired''
                                  else http_Body resp2)
                                 (devicesEndpoint ac))))
            \<and> (\<forall>resp2 m. r2 c = DoResponse resp2 \<and> http_StatusCode resp2 = 200
                  \<and> http_ReadErr resp2 = Some m \<longrightarrow>
                  fst res = Inl (Wrap ''failed after re-authentication''
                              (Wrap ''failed to read response body'' (Transport m))))
            \<and> (\<forall>resp2 m. r2 c = DoResponse resp2 \<and> http_StatusCode resp2 = 200
                  \<and> http_ReadErr resp2 = None \<and> unmarshal e (http_Body resp2) = Inl m \<longrightarrow>
                  fst res = Inl (Wrap ''failed after re-authentication''
                              (Wrap ''failed to parse JSON response'' (Msg m))))
            \<and> (\<forall>resp2 devices. r2 c = DoResponse resp2 \<and> http_StatusCode resp2 = 200
                  \<and> http_ReadErr resp2 = None \<and> unmarshal e (http_Body resp2) = Inr devices \<longrightarrow>
                  fst res = Inr devices))"
proof -
  let ?u = "cfg_Username ac" and ?p = "cfg_Password ac"
  define w1 where "w1 = w\<lparr>trace := trace w @ [EvFetchDevices, EvDo req1]\<rparr>"
  define w2 where "w2 = w1\<lparr>client := ac\<lparr>authenticated := False\<rparr>\<rparr>"
  have m1: "makeDevicesRequest e (LimitData 10000) (w\<lparr>trace := trace w @ [EvFetchDevices]\<rparr>)
            = (Inl (APIError 401 ''authentication expired'' (devicesEndpoint ac)), w1)"
    using url first
    by (simp add: makeDevicesRequest_def Do_simp Let_def StatusUnauthorized_def w1_def
          requests_append ac_def[symmetric] H_def[symmetric] req1_def[symmetric])
  have step: "res = (case Login e ?u ?p w2 of
                        (Some reAuthErr, w3) \<Rightarrow>
                          (Inl (Wrap ''failed to re-authenticate'' reAuthErr), w3)
                      | (None, w3) \<Rightarrow>
                          (case makeDevicesRequest e (LimitData 10000) w3 of
                             (Inl er2, w4) \<Rightarrow>
                               (Inl (Wrap ''failed after re-authentication'' er2), w4)
                           | (Inr response, w4) \<Rightarrow> (Inr response, w4)))"
    using auth unfolding res_def FetchDevices_def
    by (simp add: Let_def m1 ac_def[symmetric] StatusUnauthorized_def w2_def w1_def)
  have reqs2: "requests (trace w2) = H @ [req1]"
    by (simp add: w2_def w1_def requests_append H_def)
  have tr2: "trace w2 = trace w @ [EvFetchDevices, EvDo req1]"
    by (simp add: w2_def w1_def)
  have cl2: "client w2 = ac\<lparr>authenticated := False\<rparr>"
    by (simp add: w2_def)
  have L: "Login e ?u ?p w2 =
     (if \<not> url_ok e (loginEndpoint ac)
      then (Some (Wrap ''failed to create login request'' (Msg ''invalid URL'')),
            w2\<lparr>trace := trace w2 @ [EvLogin ?u ?p]\<rparr>)
      else case rL of
         DoError m \<Rightarrow> (Some (Wrap ''failed to execute login request'' (Transport m)),
                        w2\<lparr>trace := trace w2 @ [EvLogin ?u ?p, EvDo reqL]\<rparr>)
       | DoResponse resp \<Rightarrow>
           if http_StatusCode resp \<noteq> 200
           then (Some (APIError (http_StatusCode resp) (http_Body resp) (loginEndpoint ac)),
                 w2\<lparr>trace := trace w2 @ [EvLogin ?u ?p, EvDo reqL]\<rparr>)
           else (case find (\<lambda>c. cookie_Name c = ''Authorization'' \<or> cookie_Name c = ''Autorization'')
                        (http_Cookies resp) of
                   None \<Rightarrow> (Some (Msg ''no Authorization cookie received from login response''),
                             w2\<lparr>trace := trace w2 @ [EvLogin ?u ?p, EvDo reqL]\<rparr>)
                 | Some c \<Rightarrow> (None,
                             w2\<lparr>client := ac\<lparr>authCookie := Some c, authenticated := True\<rparr>,
                                trace := trace w2 @ [EvLogin ?u ?p, EvDo reqL]\<rparr>)))"
    by (simp add: Login_def Do_simp Let_def StatusOK_def scan_cookies_find requests_append
          reqs2 cl2 rL_def reqL_def
          split: http_result.splits option.splits)
  have M: "makeDevicesRequest e (LimitData 10000) w3 =
      (let w4 = w3\<lparr>trace := trace w3 @ [EvDo (req2 c)]\<rparr>
       in case r2 c of
         DoError m \<Rightarrow> (Inl (Wrap ''failed to execute request'' (Transport m)), w4)
       | DoResponse resp \<Rightarrow>
           if http_StatusCode resp = 401
           then (Inl (APIError (http_StatusCode resp) ''authentication expired''
                        (devicesEndpoint ac)), w4)
           else if http_StatusCode resp \<noteq> 200
           then (Inl (APIError (http_StatusCode resp) (http_Body resp) (devicesEndpoint ac)), w4)
           else (case http_ReadErr resp of
                   Some m \<Rightarrow> (Inl (Wrap ''failed to read response body'' (Transport m)), w4)
                 | None \<Rightarrow>
                     (case unmarshal e (http_Body resp) of
                        Inl m \<Rightarrow> (Inl (Wrap ''failed to parse JSON response'' (Msg m)), w4)
                      | Inr apiResponse \<Rightarrow> (Inr apiResponse, w4))))"
    if "client w3 = ac\<lparr>authCookie := Some c, authenticated := True\<rparr>"
       "requests (trace w3) = H @ [req1, reqL]" for c w3
    using url that
    by (simp add: makeDevicesRequest_def Do_simp Let_def StatusOK_def StatusUnauthorized_def
          r2_def req2_def
          split: http_result.splits option.splits sum.splits)
  have rq: "requests (trace w @ [EvFetchDevices, EvDo req1,
              EvLogin (cfg_Username ac) (cfg_Password ac), EvDo reqL]) = H @ [req1, reqL]"
    by (simp add: requests_append H_def)
  show ?thesis
    unfolding failed_login_def step L
    by (auto simp add: M rq Let_def tr2 cl2 split: http_result.splits option.splits sum.splits)
qed

theorem FetchDevices_reauth_witness:
  "authenticated (client ex_world_auth)
   \<and> ex_reauth_server [\<lparr>req_URL = ''https://mgmt/api/ListPhysicalDevices'',
                         req_Payload = LimitData 10000,
                         req_Cookie = Some (ex_cookie ''Authorization'')\<rparr>]
       = ex_response 401 [] []
   \<and> fst (FetchDevices (ex_env ex_reauth_server) ex_world_auth) = Inr ex_scenario
   \<and> authenticated (client (snd (FetchDevices (ex_env ex_reauth_server) ex_world_auth)))
   \<and> trace (snd (FetchDevices (ex_env ex_reauth_server) ex_world_auth)) =
       [EvFetchDevices,
        EvDo \<lparr>req_URL = ''https://mgmt/api/ListPhysicalDevices'',
              req_Payload = LimitData 10000,
              req_Cookie = Some (ex_cookie ''Authorization'')\<rparr>,
        EvLogin ''admin'' ''secret'',
        EvDo \<lparr>req_URL = ''https://mgmt/api/Login'',
              req_Payload = LoginRequest ''admin'' ''secret'', req_Cookie = None\<rparr>,
        EvDo \<lparr>req_URL = ''https://mgmt/api/ListPhysicalDevices'',
              req_Payload = LimitData 10000,
              req_Cookie = Some (ex_cookie ''Autorization'')\<rparr>]"
proof -
  have auth: "authenticated (client ex_world_auth)"
    by (simp add: ex_world_auth_def)
  have url: "url_ok (ex_env ex_reauth_server) (devicesEndpoint (client ex_world_auth))"
    by (simp add: ex_env_def)
  have first: "server (ex_env ex_reauth_server)
        (requests (trace ex_world_auth) @
          [\<lparr>req_URL = devicesEndpoint (client ex_world_auth), req_Payload = LimitData 10000,
            req_Cookie = authCookie (client ex_world_auth)\<rparr>])
       = DoResponse \<lparr>http_StatusCode = 401, http_Body = [], http_ReadErr = None,
                      http_Cookies = []\<rparr>"
    by (simp add: ex_env_def ex_reauth_server_def ex_world_auth_def ex_response_def)
  have st: "http_StatusCode \<lparr>http_StatusCode = 401, http_Body = [], http_ReadErr = None,
                      http_Cookies = []\<rparr> = 401" by simp
  note T = FetchDevices_reauth[OF auth url first st]
  have srv1: "ex_reauth_server [\<lparr>req_URL = ''https://mgmt/api/ListPhysicalDevices'',
                         req_Payload = LimitData 10000,
                         req_Cookie = Some (ex_cookie ''Authorization'')\<rparr>]
       = ex_response 401 [] []"
    by (simp add: ex_reauth_server_def)
  from T have "fst (FetchDevices (ex_env ex_reauth_server) ex_world_auth) = Inr ex_scenario
   \<and> authenticated (client (snd (FetchDevices (ex_env ex_reauth_server) ex_world_auth)))
   \<and> trace (snd (FetchDevices (ex_env ex_reauth_server) ex_world_auth)) =
       [EvFetchDevices,
        EvDo \<lparr>req_URL = ''https://mgmt/api/ListPhysicalDevices'',
              req_Payload = LimitData 10000,
              req_Cookie = Some (ex_cookie ''Authorization'')\<rparr>,
        EvLogin ''admin'' ''secret'',
        EvDo \<lparr>req_URL = ''https://mgmt/api/Login'',
              req_Payload = LoginRequest ''admin'' ''secret'', req_Cookie = None\<rparr>,
        EvDo \<lparr>req_URL = ''https://mgmt/api/ListPhysicalDevices'',
              req_Payload = LimitData 10000,
              req_Cookie = Some (ex_cookie ''Autorization'')\<rparr>]"
    by (simp add: ex_env_def ex_reauth_server_def ex_world_auth_def ex_response_def
          ex_client_def ex_cookie_def)
  with auth srv1 show ?thesis by (intro conjI) simp_all
qed

subsection \<open>The retry policy (C2)\<close>



















section \<open>Properties of the layout engine\<close>

subsection \<open>The retained snapshot (C7)\<close>








subsection \<open>Display width of a truncated string (C8, C9)\<close>

lemma RuneCount_le: "RuneCountInString s \<le> length s"
proof (induction s rule: RuneCountInString.induct)
  case 1 show ?case by simp
next
  case (2 c cs)
  have "length (drop (rune_size (c # cs) - 1) cs) \<le> length cs" by simp
  with 2 show ?case by simp
qed

lemma ReplaceAll_le: "length (ReplaceAllString s) \<le> length s"
proof (induction s rule: ReplaceAllString.induct)
  case 1 show ?case by simp
next
  case (2 c cs)
  show ?case
  proof (cases "ansi_match (c # cs)")
    case None with 2 show ?thesis by simp
  next
    case (Some n)
    with 2 have "length (ReplaceAllString (drop n (c # cs))) \<le> length (drop n (c # cs))" by simp
    then show ?thesis using Some by simp
  qed
qed

lemma ansi_match_not_ESC: "c \<noteq> ESC \<Longrightarrow> ansi_match (c # cs) = None"
  by (simp add: ansi_match_def split: list.splits)

lemma ReplaceAll_no_ESC:
  "ESC \<notin> set p \<Longrightarrow> ReplaceAllString (p @ x) = p @ ReplaceAllString x"
proof (induction p)
  case Nil show ?case by simp
next
  case (Cons a p)
  then have "a \<noteq> ESC" by auto
  then have "ansi_match (a # p @ x) = None" by (rule ansi_match_not_ESC)
  with Cons show ?case by simp
qed

lemma param_not_ESC: "is_param c \<Longrightarrow> c \<noteq> ESC"
  by (auto simp: is_param_def ESC_def)

lemma letter_not_ESC: "is_letter c \<Longrightarrow> c \<noteq> ESC"
  by (auto simp: is_letter_def ESC_def)

lemma letter_not_param: "is_letter c \<Longrightarrow> \<not> is_param c"
  by (auto simp: is_letter_def is_param_def)

text \<open>The shape of a match.\<close>

lemma ansi_match_shape:
  "ansi_match s = Some n \<longleftrightarrow>
     (\<exists>ps l rest. s = ESC # CHR ''['' # ps @ l # rest \<and> (\<forall>c \<in> set ps. is_param c)
        \<and> is_letter l \<and> n = length ps + 3)"
proof
  assume a: "ansi_match s = Some n"
  then obtain r where s: "s = ESC # CHR ''['' # r"
    by (auto simp: ansi_match_def split: list.splits if_splits)
  from a s obtain l t where d: "dropWhile is_param r = l # t" "is_letter l"
      "n = length (takeWhile is_param r) + 3"
    by (auto simp: ansi_match_def split: list.splits if_splits)
  have "r = takeWhile is_param r @ l # t" using d(1) by (metis takeWhile_dropWhile_id)
  moreover have "\<forall>c \<in> set (takeWhile is_param r). is_param c"
    by (auto dest: set_takeWhileD)
  ultimately show "\<exists>ps l rest. s = ESC # CHR ''['' # ps @ l # rest \<and> (\<forall>c \<in> set ps. is_param c)
        \<and> is_letter l \<and> n = length ps + 3"
    using s d by blast
next
  assume "\<exists>ps l rest. s = ESC # CHR ''['' # ps @ l # rest \<and> (\<forall>c \<in> set ps. is_param c)
        \<and> is_letter l \<and> n = length ps + 3"
  then obtain ps l rest where s: "s = ESC # CHR ''['' # ps @ l # rest"
     and ps: "\<forall>c \<in> set ps. is_param c" and l: "is_letter l" and n: "n = length ps + 3"
    by blast
  have np: "\<not> is_param l" using l by (rule letter_not_param)
  have "takeWhile is_param (ps @ l # rest) = ps" using ps np
    by (simp add: takeWhile_append2)
  moreover have "dropWhile is_param (ps @ l # rest) = l # rest" using ps np
    by (simp add: dropWhile_append2)
  ultimately show "ansi_match s = Some n" using s l n
    by (simp add: ansi_match_def)
qed

lemma ansi_match_append:
  "ansi_match s = Some n \<Longrightarrow> ansi_match (s @ x) = Some n"
proof -
  assume "ansi_match s = Some n"
  then obtain ps l rest where "s = ESC # CHR ''['' # ps @ l # rest" "\<forall>c \<in> set ps. is_param c"
        "is_letter l" "n = length ps + 3"
    unfolding ansi_match_shape by blast
  then have "\<exists>ps' l' rest'. s @ x = ESC # CHR ''['' # ps' @ l' # rest' \<and> (\<forall>c \<in> set ps'. is_param c)
        \<and> is_letter l' \<and> n = length ps' + 3"
    by (intro exI[of _ ps] exI[of _ l] exI[of _ "rest @ x"]) simp
  then show ?thesis unfolding ansi_match_shape .
qed

lemma take_code: "take (length ps + 3) (a # b # ps @ l # rest) = a # b # ps @ [l]"
  by (simp add: numeral_3_eq_3)

lemma ansi_match_take:
  "ansi_match s = Some n \<Longrightarrow> ansi_match (take n s) = Some n \<and> length (take n s) = n"
proof -
  assume "ansi_match s = Some n"
  then obtain ps l rest where s: "s = ESC # CHR ''['' # ps @ l # rest" "\<forall>c \<in> set ps. is_param c"
        "is_letter l" "n = length ps + 3"
    unfolding ansi_match_shape by blast
  then have t: "take n s = ESC # CHR ''['' # ps @ [l]" by (simp only: take_code)
  then have "\<exists>ps' l' rest'. take n s = ESC # CHR ''['' # ps' @ l' # rest' \<and> (\<forall>c \<in> set ps'. is_param c)
        \<and> is_letter l' \<and> n = length ps' + 3"
    using s by (intro exI[of _ ps] exI[of _ l] exI[of _ "[]"]) simp
  then show ?thesis unfolding ansi_match_shape using t s(4) by simp
qed

text \<open>A color code found by \<open>FindAllString\<close> is matched as a whole.\<close>

lemma FindAll_codes:
  "c \<in> set (FindAllString s) \<Longrightarrow> ansi_match c = Some (length c)"
proof (induction s rule: FindAllString.induct)
  case 1 then show ?case by simp
next
  case (2 a cs)
  show ?case
  proof (cases "ansi_match (a # cs)")
    case None with 2 show ?thesis by simp
  next
    case (Some n)
    with 2 ansi_match_take[OF Some] show ?thesis by auto
  qed
qed

lemma ReplaceAll_code:
  assumes "ansi_match c = Some (length c)"
  shows "ReplaceAllString (c @ x) = ReplaceAllString x"
proof -
  from assms have ne: "c \<noteq> []" by (auto simp: ansi_match_def)
  then obtain a cs where c: "c = a # cs" by (cases c) auto
  have "ansi_match (c @ x) = Some (length c)" using assms by (rule ansi_match_append)
  then show ?thesis unfolding c by simp
qed

text \<open>Text in front of a string adds at most its own length to the stripped string.\<close>

lemma ReplaceAll_prefix:
  "length (ReplaceAllString (p @ x)) \<le> length p + length (ReplaceAllString x)"
proof (induction "length p" arbitrary: p rule: less_induct)
  case less
  show ?case
  proof (cases p)
    case Nil then show ?thesis by simp
  next
    case (Cons a p')
    show ?thesis
    proof (cases "ansi_match (p @ x)")
      case None
      then have "ReplaceAllString (p @ x) = a # ReplaceAllString (p' @ x)" using Cons by simp
      moreover have "length (ReplaceAllString (p' @ x)) \<le> length p' + length (ReplaceAllString x)"
        using less[of p'] Cons by simp
      ultimately show ?thesis using Cons by simp
    next
      case (Some n)
      then have R: "ReplaceAllString (p @ x) = ReplaceAllString (drop n (p @ x))"
        using Cons by simp
      from Some obtain ps l rest where s: "p @ x = ESC # CHR ''['' # ps @ l # rest"
          "\<forall>c \<in> set ps. is_param c" "is_letter l" "n = length ps + 3"
        unfolding ansi_match_shape by blast
      have n0: "0 < n" using s(4) by simp
      show ?thesis
      proof (cases "n \<le> length p")
        case True
        then have "drop n (p @ x) = drop n p @ x" by simp
        moreover have "length (drop n p) < length p" using n0 Cons by simp
        ultimately have "length (ReplaceAllString (drop n (p @ x)))
             \<le> length (drop n p) + length (ReplaceAllString x)"
          using less[of "drop n p"] by simp
        then show ?thesis unfolding R by simp
      next
        case False
        define j where "j = n - length p"
        have j: "drop n (p @ x) = drop j x" using False by (simp add: j_def)
        have nle: "n \<le> length (p @ x)" using Some ansi_match_bounds by blast
        then have jx: "j \<le> length x" using False by (simp add: j_def)
        have mid: "take j x = drop (length p) (take n (p @ x))"
          using False by (simp add: j_def)
        have tk: "take n (p @ x) = ESC # CHR ''['' # ps @ [l]" using s by (simp only: take_code)
        have lp: "0 < length p" using Cons by simp
        have "set (drop (length p) (ESC # CHR ''['' # ps @ [l])) \<subseteq> set (CHR ''['' # ps @ [l])"
          using lp by (cases "length p") (auto dest: in_set_dropD)
        moreover have "ESC \<notin> set (CHR ''['' # ps @ [l])"
          using s(2,3) param_not_ESC letter_not_ESC by (auto simp: ESC_def)
        ultimately have "ESC \<notin> set (take j x)" unfolding mid tk by blast
        then have "ReplaceAllString (take j x @ drop j x) = take j x @ ReplaceAllString (drop j x)"
          by (rule ReplaceAll_no_ESC)
        then have "length (ReplaceAllString (drop j x)) \<le> length (ReplaceAllString x)"
          by simp
        then show ?thesis unfolding R j by simp
      qed
    qed
  qed
qed

lemma truncate_loop_width:
  assumes codes: "\<forall>c \<in> set colorCodes. ansi_match c = Some (length c)"
  shows "length (ReplaceAllString (truncate_loop parts colorCodes colorIndex textLen targetLen @ tail))
         \<le> nat (targetLen - textLen) + length (ReplaceAllString tail)"
proof (induction parts arbitrary: colorIndex textLen)
  case Nil show ?case by simp
next
  case (Cons part parts)
  show ?case
  proof (cases "textLen \<ge> targetLen")
    case True then show ?thesis by simp
  next
    case False
    define remaining where "remaining = targetLen - textLen"
    show ?thesis
    proof (cases "int (length part) \<le> remaining")
      case fits: True
      define rest where "rest =
          (if colorIndex < length colorCodes
           then truncate_loop parts colorCodes (colorIndex + 1) (textLen + int (length part)) targetLen
           else truncate_loop parts colorCodes colorIndex (textLen + int (length part)) targetLen)"
      define code where "code = (if colorIndex < length colorCodes then colorCodes ! colorIndex else [])"
      have L: "truncate_loop (part # parts) colorCodes colorIndex textLen targetLen
               = part @ code @ rest"
        using False fits by (simp add: Let_def remaining_def rest_def code_def)
      have IH: "length (ReplaceAllString (rest @ tail))
           \<le> nat (targetLen - (textLen + int (length part))) + length (ReplaceAllString tail)"
        unfolding rest_def using Cons.IH by simp
      have "ReplaceAllString (code @ rest @ tail) = ReplaceAllString (rest @ tail)"
      proof (cases "colorIndex < length colorCodes")
        case True
        then have "ansi_match code = Some (length code)"
          using codes by (simp add: code_def)
        then show ?thesis by (rule ReplaceAll_code)
      next
        case False then show ?thesis by (simp add: code_def)
      qed
      then have "length (ReplaceAllString (part @ code @ rest @ tail))
           \<le> length part + length (ReplaceAllString (rest @ tail))"
        using ReplaceAll_prefix[of part "code @ rest @ tail"] by simp
      then show ?thesis unfolding L using IH fits by (simp add: remaining_def)
    next
      case cut: False
      have L: "truncate_loop (part # parts) colorCodes colorIndex textLen targetLen
               = take (nat remaining) part"
        using False cut by (simp add: Let_def remaining_def)
      have "length (ReplaceAllString (take (nat remaining) part @ tail))
           \<le> length (take (nat remaining) part) + length (ReplaceAllString tail)"
        by (rule ReplaceAll_prefix)
      then show ?thesis unfolding L by (simp add: remaining_def)
    qed
  qed
qed

lemma ellipsis_reset: "ReplaceAllString (''...'' @ ColorReset) = ''...''"
  by code_simp

lemma truncateString_result:
  assumes "0 \<le> maxLen"
  shows "\<exists>r. truncateString s maxLen = Some r
           \<and> (if displayWidth s \<le> maxLen then r = s else displayWidth r \<le> maxLen)"
proof (cases "displayWidth s \<le> maxLen")
  case True
  then show ?thesis by (simp add: truncateString_def)
next
  case over: False
  have rl: "displayWidth s \<le> int (length (stripColors s))"
    by (simp add: displayWidth_def stripColors_def RuneCount_le)
  then have long: "\<not> int (length (stripColors s)) \<le> maxLen" using over by simp
  have width_le: "displayWidth r \<le> int (length (ReplaceAllString r))" for r
    by (simp add: displayWidth_def RuneCount_le)
  show ?thesis
  proof (cases "maxLen \<le> 3")
    case True
    then have T: "truncateString s maxLen = Some (take (nat maxLen) (stripColors s))"
      using over long assms by (simp add: truncateString_def Let_def)
    have "length (ReplaceAllString (take (nat maxLen) (stripColors s)))
           \<le> length (take (nat maxLen) (stripColors s))"
      by (rule ReplaceAll_le)
    moreover have "length (take (nat maxLen) (stripColors s)) \<le> nat maxLen"
      by simp
    ultimately have "int (length (ReplaceAllString (take (nat maxLen) (stripColors s)))) \<le> maxLen"
      using assms by linarith
    then have "displayWidth (take (nat maxLen) (stripColors s)) \<le> maxLen"
      using width_le[of "take (nat maxLen) (stripColors s)"] by linarith
    then show ?thesis using T over by simp
  next
    case False
    define r where "r = truncate_loop (Split s) (FindAllString s) 0 0 (maxLen - 3)
                         @ ''...'' @ ColorReset"
    have T: "truncateString s maxLen = Some r"
      using over long False by (simp add: truncateString_def Let_def r_def)
    have "\<forall>c \<in> set (FindAllString s). ansi_match c = Some (length c)"
      using FindAll_codes by blast
    then have "length (ReplaceAllString r)
        \<le> nat (maxLen - 3 - 0) + length (ReplaceAllString (''...'' @ ColorReset))"
      unfolding r_def by (rule truncate_loop_width)
    then have "length (ReplaceAllString r) \<le> nat (maxLen - 3) + 3"
      unfolding ellipsis_reset by simp
    then have "int (length (ReplaceAllString r)) \<le> maxLen"
      using False by linarith
    then have "displayWidth r \<le> maxLen"
      using width_le[of r] by linarith
    then show ?thesis using T over by simp
  qed
qed

lemma truncateString_negative: "maxLen < 0 \<Longrightarrow> truncateString s maxLen = None"
  by (simp add: truncateString_def Let_def displayWidth_def)

text \<open>
  The example of the specification: escape sequences do not count.
\<close>

lemma displayWidth_example: "displayWidth ([ESC] @ ''[31mAB'' @ [ESC] @ ''[0m'') = 2"
  by code_simp

lemma ex_truncated:
  "truncateString ex_name 20 =
     Some (''very-long-'' @ [ESC] @ ''[32mdevice-'' @ ''...'' @ ColorReset)"
  by code_simp

text \<open>
  Claim C9. For every string \<open>s\<close> and every \<open>maxLen \<ge> 0\<close>, \<open>truncateString\<close> returns a
  string (it does not panic); when the display width of \<open>s\<close> is at most \<open>maxLen\<close> it
  returns \<open>s\<close> unchanged, and when the display width of \<open>s\<close> exceeds \<open>maxLen\<close> the
  display width of the result is at most \<open>maxLen\<close>.
\<close>

theorem truncateString_width:
  assumes "0 \<le> maxLen"
  shows "\<exists>r. truncateString s maxLen = Some r
           \<and> (displayWidth s \<le> maxLen \<longrightarrow> r = s)
           \<and> (maxLen < displayWidth s \<longrightarrow> displayWidth r \<le> maxLen)"
  using truncateString_result[OF assms, of s] by auto

theorem truncateString_width_witness:
  "(0::int) \<le> 20 \<and> displayWidth ex_name = 26
   \<and> (\<exists>r. truncateString ex_name 20 = Some r \<and> displayWidth r \<le> 20)
   \<and> displayWidth ''abc'' = 3 \<and> truncateString ''abc'' 20 = Some ''abc''"
proof -
  have m: "(0::int) \<le> 20" by simp
  have d: "displayWidth ex_name = 26" by code_simp
  have d': "displayWidth ''abc'' = 3" by code_simp
  from truncateString_width[OF m, of ex_name] d
  have a: "\<exists>r. truncateString ex_name 20 = Some r \<and> displayWidth r \<le> 20" by auto
  from truncateString_width[OF m, of "''abc''"] d'
  have b: "truncateString ''abc'' 20 = Some ''abc''" by auto
  from m d a d' b show ?thesis by (intro conjI)
qed

text \<open>
  Claim C8. For every string \<open>s\<close> and width \<open>w\<close>, truncating the result of
  \<open>truncateString s w\<close> again to the width \<open>w\<close> returns it unchanged:
  \<open>truncateString (truncateString s w) w = truncateString s w\<close>. (For \<open>w < 0\<close> both
  sides are the panic of the first call; for \<open>w \<ge> 0\<close> claim C9 shows that the first
  call returns a string.)
\<close>

theorem truncateString_idempotent:
  "(case truncateString s w of
      None \<Rightarrow> None
    | Some r \<Rightarrow> truncateString r w) = truncateString s w"
proof (cases "w < 0")
  case True
  then show ?thesis by (simp add: truncateString_negative)
next
  case False
  then have w: "0 \<le> w" by simp
  from truncateString_result[OF w, of s] obtain r where
    r: "truncateString s w = Some r" "displayWidth r \<le> w"
    by (auto split: if_splits)
  then have "truncateString r w = Some r" by (simp add: truncateString_def)
  with r show ?thesis by simp
qed

end
